theory Spec2Isabelle
  imports Complex_Main "HOL-Library.Product_Lexorder" "HOL-Library.Multiset"
begin

section \<open>Stacked container optimizer: data model\<close>

text \<open>
  A shallow embedding of \<^verbatim>\<open>src/optimization/stacked_optimizer.py\<close>.
  Python floats are read as reals and Python ints as \<open>int\<close> (counts that the
  code only ever produces from \<^verbatim>\<open>randint(1, _)\<close>, \<^verbatim>\<open>len\<close> or \<^verbatim>\<open>range\<close> as \<open>nat\<close>).
  Float arithmetic is read as exact, with one exception: the sum
  \<^verbatim>\<open>bottom_rect.height + top_rect.height\<close> of get_minimum_height is rounded to the
  nearest double (function \<open>fl\<close> below). The container height is derived from that
  sum, and _has_rectangle_clashes later compares it with the same two heights, so
  whether a clash is reported depends on how the sum was rounded.
  Every raise of the source is a value \<open>Inl e\<close> of the result type \<open>error + 'a\<close>.
  Every call into the \<^verbatim>\<open>random\<close> module takes the raw draw it consumes as an
  explicit argument, so each function of the model is a function of its inputs and
  of the random draws.
\<close>

datatype error = IndexError | ValueError | ZeroDivisionError

text \<open>\<^verbatim>\<open>xs[i]\<close> on a Python list: a negative index counts from the end, an index
  outside \<open>-len \<dots> len - 1\<close> raises IndexError.\<close>

definition py_index :: "'a list \<Rightarrow> int \<Rightarrow> error + 'a" where
  "py_index xs i =
     (if 0 \<le> i \<and> i < int (length xs) then Inr (xs ! nat i)
      else if i < 0 \<and> - int (length xs) \<le> i then Inr (xs ! nat (int (length xs) + i))
      else Inl IndexError)"

record rectangle =
  r_width :: real
  r_height :: real
  r_id :: int

definition area :: "rectangle \<Rightarrow> real" where
  "area r = r_width r * r_height r"

text \<open>A container keeps, per edge, the list of \<open>(rect_id, x_position)\<close> pairs in the
  order in which they were appended.\<close>

record container =
  c_width :: real
  c_height :: real
  c_id :: int
  bottom_rectangles :: "(int \<times> real) list"
  top_rectangles :: "(int \<times> real) list"

section \<open>Rounding to the nearest double\<close>

text \<open>
  A Python float is an IEEE 754 double: a 53-bit significand, and the result of an
  addition is the exact sum rounded to the nearest double, ties to the even
  significand. \<open>fl x\<close> is that rounding of the real \<open>x\<close>: \<open>x\<close> is scaled by the power
  of two that brings its magnitude into \<open>[2^52, 2^53)\<close>, rounded to an integer by
  \<open>round_even\<close>, and scaled back. The exponent is not bounded here: overflow and
  subnormal numbers, many orders of magnitude away from the heights considered
  below, are not modelled.
\<close>

definition round_even :: "real \<Rightarrow> int" where
  "round_even x =
     (let f = \<lfloor>x\<rfloor>; d = x - of_int f in
      if d < 1 / 2 then f
      else if 1 / 2 < d then f + 1
      else if even f then f else f + 1)"

definition fl :: "real \<Rightarrow> real" where
  "fl x =
     (if x = 0 then 0
      else
        let e = \<lfloor>log 2 \<bar>x\<bar>\<rfloor> in
        of_int (round_even (x * 2 powi (52 - e))) * 2 powi (e - 52))"

section \<open>Geometric primitives (class Container)\<close>

text \<open>
  Every method of \<^verbatim>\<open>Container\<close> reads \<^verbatim>\<open>all_rectangles[rect_id]\<close> for the items it
  visits. \<open>lookup_items\<close> performs these reads for one edge, front to back, and is
  IndexError as soon as one of them is out of range. The methods below visit every
  item of an edge they look at, so each is modelled as the reads followed by a
  computation on the rectangles read.
\<close>

fun lookup_items :: "rectangle list \<Rightarrow> (int \<times> real) list \<Rightarrow> error + (rectangle \<times> real) list" where
  "lookup_items rs [] = Inr []"
| "lookup_items rs ((i, x) # its) =
     (case py_index rs i of
        Inl e \<Rightarrow> Inl e
      | Inr r \<Rightarrow> (case lookup_items rs its of
                    Inl e \<Rightarrow> Inl e
                  | Inr ps \<Rightarrow> Inr ((r, x) # ps)))"

text \<open>\<^verbatim>\<open>max(all_rectangles[rect_id].height for rect_id, _ in items)\<close>, with the
  guard \<^verbatim>\<open>if not items: return 0\<close> of get_bottom_height and get_top_height.\<close>

fun max_height :: "(rectangle \<times> real) list \<Rightarrow> real" where
  "max_height [] = 0"
| "max_height ((r, x) # ps) = fold (\<lambda>(r', x') m. max m (r_height r')) ps (r_height r)"

definition used_area :: "rectangle list \<Rightarrow> container \<Rightarrow> error + real" where
  "used_area rs c =
     (case lookup_items rs (bottom_rectangles c) of
        Inl e \<Rightarrow> Inl e
      | Inr bs \<Rightarrow> (case lookup_items rs (top_rectangles c) of
                    Inl e \<Rightarrow> Inl e
                  | Inr ts \<Rightarrow> Inr (fold (\<lambda>(r, x) total. total + area r) ts
                                   (fold (\<lambda>(r, x) total. total + area r) bs 0))))"

definition utilization :: "rectangle list \<Rightarrow> container \<Rightarrow> error + real" where
  "utilization rs c =
     (let total_area = c_width c * c_height c in
      if total_area = 0 then Inr 0
      else (case used_area rs c of
              Inl e \<Rightarrow> Inl e
            | Inr a \<Rightarrow> Inr (a / total_area)))"

definition get_bottom_height :: "rectangle list \<Rightarrow> container \<Rightarrow> error + real" where
  "get_bottom_height rs c =
     (case lookup_items rs (bottom_rectangles c) of
        Inl e \<Rightarrow> Inl e
      | Inr bs \<Rightarrow> Inr (max_height bs))"

definition get_top_height :: "rectangle list \<Rightarrow> container \<Rightarrow> error + real" where
  "get_top_height rs c =
     (case lookup_items rs (top_rectangles c) of
        Inl e \<Rightarrow> Inl e
      | Inr ts \<Rightarrow> Inr (max_height ts))"

text \<open>The X-axis test used by get_minimum_height and by _has_rectangle_clashes.\<close>

definition x_overlap :: "rectangle \<Rightarrow> real \<Rightarrow> rectangle \<Rightarrow> real \<Rightarrow> bool" where
  "x_overlap b bx t tx = (\<not> (bx + r_width b \<le> tx \<or> bx \<ge> tx + r_width t))"

text \<open>The nested loop of get_minimum_height: \<open>min_height_needed\<close> starts at 0 and is
  raised to \<open>bottom.height + top.height\<close>, a float sum, for every pair that overlaps
  in X.\<close>

definition overlap_height :: "(rectangle \<times> real) list \<Rightarrow> (rectangle \<times> real) list \<Rightarrow> real" where
  "overlap_height bs ts =
     fold (\<lambda>(b, bx) acc.
             fold (\<lambda>(t, tx) acc'.
                     if x_overlap b bx t tx then max acc' (fl (r_height b + r_height t)) else acc')
                  ts acc)
          bs 0"

definition minimum_height :: "(rectangle \<times> real) list \<Rightarrow> (rectangle \<times> real) list \<Rightarrow> real" where
  "minimum_height bs ts =
     (if bs = [] \<or> ts = [] then max_height bs + max_height ts
      else
        let m = overlap_height bs ts;
            min_height_needed = (if m = 0 then max (max_height bs) (max_height ts) else m);
            tallest_rect = max_height (bs @ ts)
        in max min_height_needed tallest_rect)"

definition get_minimum_height :: "rectangle list \<Rightarrow> container \<Rightarrow> error + real" where
  "get_minimum_height rs c =
     (case lookup_items rs (bottom_rectangles c) of
        Inl e \<Rightarrow> Inl e
      | Inr bs \<Rightarrow> (case lookup_items rs (top_rectangles c) of
                    Inl e \<Rightarrow> Inl e
                  | Inr ts \<Rightarrow> Inr (minimum_height bs ts)))"

section \<open>Placement engine (StackedContainerOptimizer)\<close>

definition can_place_at_bottom :: "rectangle list \<Rightarrow> container \<Rightarrow> rectangle \<Rightarrow> error + bool" where
  "can_place_at_bottom rs c rect =
     (if r_height rect > c_height c then Inr False
      else (case get_bottom_height rs c of
              Inl e \<Rightarrow> Inl e
            | Inr current_bottom_height \<Rightarrow>
                (case get_top_height rs c of
                   Inl e \<Rightarrow> Inl e
                 | Inr top_height \<Rightarrow>
                     Inr (max current_bottom_height (r_height rect) \<le> c_height c - top_height))))"

definition can_place_at_top :: "rectangle list \<Rightarrow> container \<Rightarrow> rectangle \<Rightarrow> error + bool" where
  "can_place_at_top rs c rect =
     (if r_height rect > c_height c then Inr False
      else (case get_top_height rs c of
              Inl e \<Rightarrow> Inl e
            | Inr current_top_height \<Rightarrow>
                (case get_bottom_height rs c of
                   Inl e \<Rightarrow> Inl e
                 | Inr bottom_height \<Rightarrow>
                     Inr (max current_top_height (r_height rect) \<le> c_height c - bottom_height))))"

text \<open>_overlaps_with_bottom_rectangles and _overlaps_with_top_rectangles are the same
  loop over the items of one edge.\<close>

fun overlaps_with :: "(rectangle \<times> real) list \<Rightarrow> rectangle \<Rightarrow> real \<Rightarrow> bool" where
  "overlaps_with [] rect x_pos = False"
| "overlaps_with ((existing_rect, existing_x) # ps) rect x_pos =
     (if \<not> (x_pos + r_width rect \<le> existing_x \<or> x_pos \<ge> existing_x + r_width existing_rect)
      then True
      else overlaps_with ps rect x_pos)"

text \<open>Strategy 1 of find_bottom_position / find_top_position: align the new rectangle
  with the start, then with the end, of each rectangle on the opposite edge.\<close>

fun align_position ::
  "real \<Rightarrow> (rectangle \<times> real) list \<Rightarrow> rectangle \<Rightarrow> (rectangle \<times> real) list \<Rightarrow> real option" where
  "align_position W same rect [] = None"
| "align_position W same rect ((other_rect, other_x) # others) =
     (if other_x + r_width rect \<le> W \<and> \<not> overlaps_with same rect other_x then Some other_x
      else
        let aligned_x = other_x + r_width other_rect - r_width rect in
        if aligned_x \<ge> 0 \<and> aligned_x + r_width rect \<le> W \<and> \<not> overlaps_with same rect aligned_x
        then Some aligned_x
        else align_position W same rect others)"

text \<open>Strategy 2: first fit, left to right, over the sorted occupied ranges.\<close>

fun first_fit :: "real \<Rightarrow> real \<Rightarrow> real \<Rightarrow> (real \<times> real) list \<Rightarrow> real option" where
  "first_fit W w current_x [] = (if current_x + w \<le> W then Some current_x else None)"
| "first_fit W w current_x ((start_x, end_x) # ranges) =
     (if current_x + w \<le> start_x then Some current_x
      else first_fit W w (max current_x end_x) ranges)"

definition occupied_ranges :: "(rectangle \<times> real) list \<Rightarrow> (real \<times> real) list" where
  "occupied_ranges same = sort (map (\<lambda>(r, x_pos). (x_pos, x_pos + r_width r)) same)"

definition find_position ::
  "real \<Rightarrow> (rectangle \<times> real) list \<Rightarrow> (rectangle \<times> real) list \<Rightarrow> rectangle \<Rightarrow> real option" where
  "find_position W same opposite rect =
     (case align_position W same rect opposite of
        Some x \<Rightarrow> Some x
      | None \<Rightarrow> first_fit W (r_width rect) 0 (occupied_ranges same))"

definition find_bottom_position ::
  "rectangle list \<Rightarrow> container \<Rightarrow> rectangle \<Rightarrow> error + real option" where
  "find_bottom_position rs c rect =
     (case can_place_at_bottom rs c rect of
        Inl e \<Rightarrow> Inl e
      | Inr False \<Rightarrow> Inr None
      | Inr True \<Rightarrow>
          (case lookup_items rs (top_rectangles c) of
             Inl e \<Rightarrow> Inl e
           | Inr ts \<Rightarrow> (case lookup_items rs (bottom_rectangles c) of
                         Inl e \<Rightarrow> Inl e
                       | Inr bs \<Rightarrow> Inr (find_position (c_width c) bs ts rect))))"

definition find_top_position ::
  "rectangle list \<Rightarrow> container \<Rightarrow> rectangle \<Rightarrow> error + real option" where
  "find_top_position rs c rect =
     (case can_place_at_top rs c rect of
        Inl e \<Rightarrow> Inl e
      | Inr False \<Rightarrow> Inr None
      | Inr True \<Rightarrow>
          (case lookup_items rs (bottom_rectangles c) of
             Inl e \<Rightarrow> Inl e
           | Inr bs \<Rightarrow> (case lookup_items rs (top_rectangles c) of
                         Inl e \<Rightarrow> Inl e
                       | Inr ts \<Rightarrow> Inr (find_position (c_width c) ts bs rect))))"

text \<open>_has_rectangle_clashes: a bottom item spans \<open>[0, height]\<close> in Y, a top item
  \<open>[container.height - height, container.height]\<close>.\<close>

definition clash_pair :: "real \<Rightarrow> rectangle \<Rightarrow> real \<Rightarrow> rectangle \<Rightarrow> real \<Rightarrow> bool" where
  "clash_pair H b bx t tx =
     (x_overlap b bx t tx \<and> \<not> (r_height b \<le> H - r_height t \<or> 0 \<ge> H))"

definition has_clash :: "real \<Rightarrow> (rectangle \<times> real) list \<Rightarrow> (rectangle \<times> real) list \<Rightarrow> bool" where
  "has_clash H bs ts = list_ex (\<lambda>(b, bx). list_ex (\<lambda>(t, tx). clash_pair H b bx t tx) ts) bs"

definition has_rectangle_clashes :: "rectangle list \<Rightarrow> container \<Rightarrow> error + bool" where
  "has_rectangle_clashes rs c =
     (if bottom_rectangles c = [] \<or> top_rectangles c = [] then Inr False
      else (case lookup_items rs (bottom_rectangles c) of
              Inl e \<Rightarrow> Inl e
            | Inr bs \<Rightarrow> (case lookup_items rs (top_rectangles c) of
                          Inl e \<Rightarrow> Inl e
                        | Inr ts \<Rightarrow> Inr (has_clash (c_height c) bs ts))))"

section \<open>Solution encoding (class Individual) and the optimizer's configuration\<close>

record individual =
  ind_rectangles :: "rectangle list"
  ind_container_width :: real
  ind_max_total_height :: real
  ind_max_containers :: int
  num_containers :: nat
  rectangle_order :: "int list"
  container_heights :: "real list"
  fitness :: real
  containers :: "container list"
  total_height_used :: real
  rectangles_placed :: nat

record optimizer =
  rectangles :: "rectangle list"
  container_width :: real
  max_total_height :: real
  max_containers :: int
  population_size :: int
  generations :: int
  mutation_rate :: real
  crossover_rate :: real
  elitism_count :: int
  population :: "individual list"
  best_individual :: "individual option"

text \<open>\<^verbatim>\<open>random.randint(a, b)\<close> is \<^verbatim>\<open>a + randbelow(b - a + 1)\<close> and raises ValueError on
  an empty range. The raw draw \<open>d\<close> is reduced into the range, so every outcome of
  the library call is the value at some \<open>d\<close>.\<close>

definition randint :: "int \<Rightarrow> int \<Rightarrow> nat \<Rightarrow> error + int" where
  "randint a b d = (if b < a then Inl ValueError else Inr (a + int (d mod nat (b - a + 1))))"

text \<open>\<^verbatim>\<open>random.uniform(a, b)\<close> is \<^verbatim>\<open>a + (b - a) * random()\<close>; \<open>r\<close> is the value of
  \<^verbatim>\<open>random()\<close>, which the library draws from \<open>[0, 1)\<close>.\<close>

definition uniform :: "real \<Rightarrow> real \<Rightarrow> real \<Rightarrow> real" where
  "uniform a b r = a + (b - a) * r"

text \<open>\<^verbatim>\<open>Individual.__init__\<close>; \<open>d\<close> is the draw of \<^verbatim>\<open>random.randint(1, max_containers)\<close>.\<close>

definition Individual_init ::
  "rectangle list \<Rightarrow> real \<Rightarrow> real \<Rightarrow> int \<Rightarrow> nat \<Rightarrow> error + individual" where
  "Individual_init rs cw mth mc d =
     (case randint 1 mc d of
        Inl e \<Rightarrow> Inl e
      | Inr k \<Rightarrow>
          Inr \<lparr> ind_rectangles = rs, ind_container_width = cw, ind_max_total_height = mth,
                ind_max_containers = mc, num_containers = nat k,
                rectangle_order = map int [0..<length rs],
                container_heights = replicate (nat k) (mth / real_of_int k),
                fitness = 0, containers = [], total_height_used = 0,
                rectangles_placed = 0 \<rparr>)"

text \<open>\<^verbatim>\<open>Individual.copy\<close>: a new Individual is constructed (one more draw \<open>d\<close>), then
  the fields the method assigns are overwritten. The containers are rebuilt one by
  one with copies of their two item lists.\<close>

definition copy_container :: "container \<Rightarrow> container" where
  "copy_container c =
     \<lparr> c_width = c_width c, c_height = c_height c, c_id = c_id c,
       bottom_rectangles = bottom_rectangles c, top_rectangles = top_rectangles c \<rparr>"

definition copy :: "individual \<Rightarrow> nat \<Rightarrow> error + individual" where
  "copy self d =
     (case Individual_init (ind_rectangles self) (ind_container_width self)
             (ind_max_total_height self) (ind_max_containers self) d of
        Inl e \<Rightarrow> Inl e
      | Inr new_ind \<Rightarrow>
          Inr (new_ind \<lparr> num_containers := num_containers self,
                         rectangle_order := rectangle_order self,
                         fitness := fitness self,
                         containers := map copy_container (containers self),
                         total_height_used := total_height_used self,
                         rectangles_placed := rectangles_placed self \<rparr>))"



section \<open>pack_rectangles\<close>

text \<open>The containers built at the start of pack_rectangles: one per
  \<open>num_containers\<close>, with the individual's height where it has one.\<close>

definition make_containers :: "optimizer \<Rightarrow> individual \<Rightarrow> container list" where
  "make_containers opt ind =
     map (\<lambda>i. \<lparr> c_width = container_width opt,
                c_height = (if i < length (container_heights ind) then container_heights ind ! i
                            else max_total_height opt / real (num_containers ind)),
                c_id = int i, bottom_rectangles = [], top_rectangles = [] \<rparr>)
         [0..<num_containers ind]"

text \<open>The body of the loop over containers, for one container: \<open>None\<close> when the
  rectangle was not placed in it, the updated container when it was. The bottom edge
  is tried first; the top edge only when the bottom did not take the rectangle.
  The source guards each \<^verbatim>\<open>find_*_position\<close> call with the matching
  \<^verbatim>\<open>can_place_at_*\<close>; the callee starts with the same test and returns \<^verbatim>\<open>None\<close> when
  it fails, so the guarded call is the call. \<^verbatim>\<open>rectangle_assignments\<close> is written
  here and read nowhere, and \<^verbatim>\<open>_calculate_alignment_bonus\<close> is called with its
  result dropped; neither is part of the model.\<close>

definition place_in_container ::
  "rectangle list \<Rightarrow> container \<Rightarrow> rectangle \<Rightarrow> int \<Rightarrow> error + container option" where
  "place_in_container rs c rect rect_idx =
     (if r_width rect > c_width c then Inr None
      else
        (case find_bottom_position rs c rect of
           Inl e \<Rightarrow> Inl e
         | Inr (Some x_pos) \<Rightarrow>
             Inr (Some (c \<lparr> bottom_rectangles := bottom_rectangles c @ [(rect_idx, x_pos)] \<rparr>))
         | Inr None \<Rightarrow>
             (case find_top_position rs c rect of
                Inl e \<Rightarrow> Inl e
              | Inr (Some x_pos) \<Rightarrow>
                  Inr (Some (c \<lparr> top_rectangles := top_rectangles c @ [(rect_idx, x_pos)] \<rparr>))
              | Inr None \<Rightarrow> Inr None)))"

fun place_rect ::
  "rectangle list \<Rightarrow> rectangle \<Rightarrow> int \<Rightarrow> container list \<Rightarrow> error + (container list \<times> bool)" where
  "place_rect rs rect rect_idx [] = Inr ([], False)"
| "place_rect rs rect rect_idx (c # cs) =
     (case place_in_container rs c rect rect_idx of
        Inl e \<Rightarrow> Inl e
      | Inr (Some c') \<Rightarrow> Inr (c' # cs, True)
      | Inr None \<Rightarrow>
          (case place_rect rs rect rect_idx cs of
             Inl e \<Rightarrow> Inl e
           | Inr (cs', placed) \<Rightarrow> Inr (c # cs', placed)))"

text \<open>The loop over \<open>rectangle_order\<close>, with the running \<open>placed_count\<close>.\<close>

fun place_all ::
  "rectangle list \<Rightarrow> int list \<Rightarrow> container list \<Rightarrow> nat \<Rightarrow> error + (container list \<times> nat)" where
  "place_all rs [] cs placed_count = Inr (cs, placed_count)"
| "place_all rs (rect_idx # order) cs placed_count =
     (case py_index rs rect_idx of
        Inl e \<Rightarrow> Inl e
      | Inr rect \<Rightarrow>
          (case place_rect rs rect rect_idx cs of
             Inl e \<Rightarrow> Inl e
           | Inr (cs', placed) \<Rightarrow>
               place_all rs order cs' (if placed then placed_count + 1 else placed_count)))"

text \<open>The height pass at the end of pack_rectangles. \<open>u k\<close> is the \<open>k\<close>-th value of
  \<^verbatim>\<open>random()\<close> the pass consumes: one per container that holds an item, in container
  order. The arithmetic of the height pass is read as exact. For a draw
  \<^verbatim>\<open>random() = 0.0\<close> it is exact in floats as well: the jitter is
  \<^verbatim>\<open>0.0 * min_height = 0.0\<close> and the height is \<^verbatim>\<open>min_height + 0.0 = min_height\<close>.\<close>

fun optimize_heights ::
  "rectangle list \<Rightarrow> (nat \<Rightarrow> real) \<Rightarrow> nat \<Rightarrow> container list \<Rightarrow> error + container list" where
  "optimize_heights rs u k [] = Inr []"
| "optimize_heights rs u k (c # cs) =
     (if bottom_rectangles c \<noteq> [] \<or> top_rectangles c \<noteq> [] then
        (case get_minimum_height rs c of
           Inl e \<Rightarrow> Inl e
         | Inr min_height \<Rightarrow>
             (case optimize_heights rs u (Suc k) cs of
                Inl e \<Rightarrow> Inl e
              | Inr cs' \<Rightarrow>
                  Inr (c \<lparr> c_height := min_height + uniform 0 0.02 (u k) * min_height \<rparr> # cs')))
      else
        (case optimize_heights rs u k cs of
           Inl e \<Rightarrow> Inl e
         | Inr cs' \<Rightarrow> Inr (c # cs')))"

definition pack_rectangles ::
  "optimizer \<Rightarrow> (nat \<Rightarrow> real) \<Rightarrow> individual \<Rightarrow> error + (container list \<times> nat)" where
  "pack_rectangles opt u ind =
     (case place_all (rectangles opt) (rectangle_order ind) (make_containers opt ind) 0 of
        Inl e \<Rightarrow> Inl e
      | Inr (cs, placed_count) \<Rightarrow>
          (case optimize_heights (rectangles opt) u 0 cs of
             Inl e \<Rightarrow> Inl e
           | Inr cs' \<Rightarrow> Inr (cs', placed_count)))"

section \<open>evaluate_fitness\<close>

text \<open>The three loops over the containers, each with its accumulator.\<close>

fun utilization_loop ::
  "rectangle list \<Rightarrow> container list \<Rightarrow> real \<Rightarrow> nat \<Rightarrow> error + (real \<times> nat)" where
  "utilization_loop rs [] total_utilization containers_with_items =
     Inr (total_utilization, containers_with_items)"
| "utilization_loop rs (c # cs) total_utilization containers_with_items =
     (if bottom_rectangles c \<noteq> [] \<or> top_rectangles c \<noteq> [] then
        (case utilization rs c of
           Inl e \<Rightarrow> Inl e
         | Inr ut \<Rightarrow> utilization_loop rs cs (total_utilization + ut) (containers_with_items + 1))
      else utilization_loop rs cs total_utilization containers_with_items)"

definition avg_utilization :: "rectangle list \<Rightarrow> container list \<Rightarrow> error + real" where
  "avg_utilization rs cs =
     (case utilization_loop rs cs 0 0 of
        Inl e \<Rightarrow> Inl e
      | Inr (tot, n) \<Rightarrow> Inr (if n > 0 then tot / real n else 0))"

fun clash_penalty_loop :: "rectangle list \<Rightarrow> container list \<Rightarrow> real \<Rightarrow> error + real" where
  "clash_penalty_loop rs [] clash_penalty = Inr clash_penalty"
| "clash_penalty_loop rs (c # cs) clash_penalty =
     (case has_rectangle_clashes rs c of
        Inl e \<Rightarrow> Inl e
      | Inr clash \<Rightarrow>
          clash_penalty_loop rs cs (if clash then clash_penalty + 10000 else clash_penalty))"

fun compactness_loop :: "rectangle list \<Rightarrow> container list \<Rightarrow> real \<Rightarrow> error + real" where
  "compactness_loop rs [] compactness_bonus = Inr compactness_bonus"
| "compactness_loop rs (c # cs) compactness_bonus =
     (if bottom_rectangles c \<noteq> [] \<and> top_rectangles c \<noteq> [] then
        (case get_minimum_height rs c of
           Inl e \<Rightarrow> Inl e
         | Inr min_possible \<Rightarrow>
             compactness_loop rs cs
               (if c_height c > 0 then compactness_bonus + min_possible / c_height c * 200
                else compactness_bonus))
      else compactness_loop rs cs compactness_bonus)"

text \<open>The weighted sum at the end of evaluate_fitness.\<close>

definition combined_fitness ::
  "real \<Rightarrow> real \<Rightarrow> real \<Rightarrow> real \<Rightarrow> real \<Rightarrow> real \<Rightarrow> real \<Rightarrow> real" where
  "combined_fitness placement_rate placement_bonus avg_util compactness_bonus
       container_penalty height_penalty clash_penalty =
     placement_rate * 1000 + placement_bonus + avg_util * 300 + compactness_bonus
       - container_penalty * 50 - height_penalty * 30 - clash_penalty"

text \<open>evaluate_fitness mutates the individual; the model returns the updated one.
  \<^verbatim>\<open>num_containers / self.max_containers\<close> raises ZeroDivisionError when the optimizer's
  \<open>max_containers\<close> is 0.\<close>

definition evaluate_fitness ::
  "optimizer \<Rightarrow> (nat \<Rightarrow> real) \<Rightarrow> individual \<Rightarrow> error + individual" where
  "evaluate_fitness opt u ind =
     (case pack_rectangles opt u ind of
        Inl e \<Rightarrow> Inl e
      | Inr (cs, placed_count) \<Rightarrow>
          let ind1 = ind \<lparr> containers := cs, rectangles_placed := placed_count,
                           total_height_used :=
                             sum_list (map c_height (take (num_containers ind) cs)) \<rparr>;
              total_rectangles = length (rectangles opt);
              placement_rate = (if total_rectangles > 0
                                then real placed_count / real total_rectangles else 0)
          in
          if placed_count = 0 then Inr (ind1 \<lparr> fitness := - 1000 \<rparr>)
          else
            (case avg_utilization (rectangles opt) cs of
               Inl e \<Rightarrow> Inl e
             | Inr avg_util \<Rightarrow>
                 if max_containers opt = 0 then Inl ZeroDivisionError
                 else
                   let container_penalty =
                         real (num_containers ind) / real_of_int (max_containers opt);
                       height_penalty =
                         (if max_total_height opt > 0
                          then total_height_used ind1 / max_total_height opt else 1);
                       placement_bonus = (if placed_count = total_rectangles then 500 else 0)
                   in
                   (case clash_penalty_loop (rectangles opt) cs 0 of
                      Inl e \<Rightarrow> Inl e
                    | Inr clash_penalty \<Rightarrow>
                        (case compactness_loop (rectangles opt) cs 0 of
                           Inl e \<Rightarrow> Inl e
                         | Inr compactness_bonus \<Rightarrow>
                             Inr (ind1 \<lparr> fitness :=
                                    combined_fitness placement_rate placement_bonus avg_util
                                      compactness_bonus container_penalty height_penalty
                                      clash_penalty \<rparr>)))))"

section \<open>Random permutations and samples\<close>

text \<open>\<^verbatim>\<open>random.shuffle(x)\<close> is the Fisher-Yates loop
  \<^verbatim>\<open>for i in reversed(range(1, len(x))): j = randbelow(i + 1); x[i], x[j] = x[j], x[i]\<close>.
  \<open>g i\<close> is the raw draw used at position \<open>i\<close>.\<close>

fun shuffle_steps :: "(nat \<Rightarrow> nat) \<Rightarrow> nat \<Rightarrow> 'a list \<Rightarrow> 'a list" where
  "shuffle_steps g 0 xs = xs"
| "shuffle_steps g (Suc i) xs =
     (let j = g (Suc i) mod (Suc i + 1)
      in shuffle_steps g i (xs[Suc i := xs ! j, j := xs ! Suc i]))"

definition shuffle :: "(nat \<Rightarrow> nat) \<Rightarrow> 'a list \<Rightarrow> 'a list" where
  "shuffle g xs = shuffle_steps g (length xs - 1) xs"

definition initialize_random :: "individual \<Rightarrow> (nat \<Rightarrow> nat) \<Rightarrow> individual" where
  "initialize_random self g = self \<lparr> rectangle_order := shuffle g (rectangle_order self) \<rparr>"

text \<open>\<^verbatim>\<open>random.sample(range(n), 2)\<close>: ValueError when \<open>n < 2\<close>; otherwise two distinct
  positions. The first is \<^verbatim>\<open>pool[randbelow(n)]\<close>; the chosen entry of the pool is then
  replaced by the last one and the second is \<^verbatim>\<open>pool[randbelow(n - 1)]\<close>. Every ordered
  pair of distinct positions is the value at some pair of draws.\<close>

definition sample_two :: "nat \<Rightarrow> nat \<Rightarrow> nat \<Rightarrow> error + (nat \<times> nat)" where
  "sample_two n d1 d2 =
     (if n < 2 then Inl ValueError
      else let i = d1 mod n; j = d2 mod (n - 1)
           in Inr (i, if j = i then n - 1 else j))"

text \<open>Python slices with \<open>0 \<le> s \<le> e\<close>: \<^verbatim>\<open>xs[s:e]\<close> and \<^verbatim>\<open>xs[s:e] = ys\<close>.\<close>

definition slice :: "'a list \<Rightarrow> nat \<Rightarrow> nat \<Rightarrow> 'a list" where
  "slice xs s e = take (e - s) (drop s xs)"

definition slice_assign :: "'a list \<Rightarrow> nat \<Rightarrow> nat \<Rightarrow> 'a list \<Rightarrow> 'a list" where
  "slice_assign xs s e ys = take s xs @ ys @ drop e xs"

section \<open>crossover\<close>

text \<open>The draws one call of crossover consumes: the value of \<^verbatim>\<open>random.random()\<close>
  compared with the crossover rate, the constructor draws of the two copies and of
  the two children, the coin for the container counts, one coin per height index,
  and the two draws of \<^verbatim>\<open>random.sample\<close>.\<close>

record crossover_draws =
  x_gate :: real
  x_copy1 :: nat
  x_copy2 :: nat
  x_child1 :: nat
  x_child2 :: nat
  x_count :: real
  x_height :: "nat \<Rightarrow> real"
  x_cut1 :: nat
  x_cut2 :: nat

text \<open>The loop \<^verbatim>\<open>for i in range(max(child1.num_containers, child2.num_containers))\<close>.\<close>

fun cross_heights ::
  "(nat \<Rightarrow> real) \<Rightarrow> real list \<Rightarrow> real list \<Rightarrow> nat list \<Rightarrow> real list \<Rightarrow> real list
     \<Rightarrow> real list \<times> real list" where
  "cross_heights coin ph1 ph2 [] h1 h2 = (h1, h2)"
| "cross_heights coin ph1 ph2 (i # idxs) h1 h2 =
     (if coin i < 0.5 then
        cross_heights coin ph1 ph2 idxs
          (if i < length ph1 then h1 @ [ph1 ! i] else h1)
          (if i < length ph2 then h2 @ [ph2 ! i] else h2)
      else
        cross_heights coin ph1 ph2 idxs
          (if i < length ph2 then h1 @ [ph2 ! i] else h1)
          (if i < length ph1 then h2 @ [ph1 ! i] else h2))"

text \<open>Truncate to \<open>n\<close> heights, then append \<open>max_total_height / n\<close> while too short.\<close>

definition fit_heights :: "real \<Rightarrow> nat \<Rightarrow> real list \<Rightarrow> real list" where
  "fit_heights mth n hs = take n hs @ replicate (n - length (take n hs)) (mth / real n)"

text \<open>The loop that fills a child's order from the other parent: an item already in
  the child is skipped, any other is written at \<^verbatim>\<open>pointer % size\<close> (IndexError when
  that position is outside the child).\<close>

fun ox_fill :: "nat \<Rightarrow> int list \<Rightarrow> int list \<Rightarrow> nat \<Rightarrow> error + int list" where
  "ox_fill sz [] child pointer = Inr child"
| "ox_fill sz (item # items) child pointer =
     (if item \<in> set child then ox_fill sz items child pointer
      else if pointer mod sz < length child
           then ox_fill sz items (child[pointer mod sz := item]) (pointer + 1)
           else Inl IndexError)"

definition order_crossover ::
  "nat \<Rightarrow> nat \<Rightarrow> nat \<Rightarrow> int list \<Rightarrow> int list \<Rightarrow> error + int list" where
  "order_crossover sz start_i end_i pa pb =
     ox_fill sz (drop end_i pb @ take end_i pb)
       (slice_assign (replicate sz (- 1)) start_i end_i (slice pa start_i end_i))
       end_i"

definition crossover ::
  "optimizer \<Rightarrow> individual \<Rightarrow> individual \<Rightarrow> crossover_draws
     \<Rightarrow> error + (individual \<times> individual)" where
  "crossover opt parent1 parent2 dr =
     (if x_gate dr > crossover_rate opt then
        (case copy parent1 (x_copy1 dr) of
           Inl e \<Rightarrow> Inl e
         | Inr c1 \<Rightarrow> (case copy parent2 (x_copy2 dr) of
                        Inl e \<Rightarrow> Inl e
                      | Inr c2 \<Rightarrow> Inr (c1, c2)))
      else
        (case Individual_init (rectangles opt) (container_width opt) (max_total_height opt)
                (max_containers opt) (x_child1 dr) of
           Inl e \<Rightarrow> Inl e
         | Inr child1 \<Rightarrow>
        (case Individual_init (rectangles opt) (container_width opt) (max_total_height opt)
                (max_containers opt) (x_child2 dr) of
           Inl e \<Rightarrow> Inl e
         | Inr child2 \<Rightarrow>
             let n1 = (if x_count dr < 0.5 then num_containers parent1
                       else num_containers parent2);
                 n2 = (if x_count dr < 0.5 then num_containers parent2
                       else num_containers parent1);
                 hs = cross_heights (x_height dr) (container_heights parent1)
                        (container_heights parent2) [0..<max n1 n2] [] [];
                 h1 = fit_heights (max_total_height opt) n1 (fst hs);
                 h2 = fit_heights (max_total_height opt) n2 (snd hs);
                 sz = length (rectangle_order parent1)
             in
             (case sample_two sz (x_cut1 dr) (x_cut2 dr) of
                Inl e \<Rightarrow> Inl e
              | Inr (a, b) \<Rightarrow>
                  let start_i = min a b; end_i = max a b in
                  (case order_crossover sz start_i end_i
                          (rectangle_order parent1) (rectangle_order parent2) of
                     Inl e \<Rightarrow> Inl e
                   | Inr o1 \<Rightarrow>
                  (case order_crossover sz start_i end_i
                          (rectangle_order parent2) (rectangle_order parent1) of
                     Inl e \<Rightarrow> Inl e
                   | Inr o2 \<Rightarrow>
                       Inr (child1 \<lparr> num_containers := n1, container_heights := h1,
                                      rectangle_order := o1 \<rparr>,
                            child2 \<lparr> num_containers := n2, container_heights := h2,
                                      rectangle_order := o2 \<rparr>)))))))"

section \<open>mutate\<close>

datatype mutation_type = Containers | Heights | Order | Adjust | Shuffle | Random_heights

text \<open>The draws one call of mutate consumes: the gate compared with the mutation
  rate, the index picked by \<^verbatim>\<open>random.choice\<close>, two integer draws, the values of
  \<^verbatim>\<open>random()\<close> behind \<^verbatim>\<open>random.uniform\<close>, and the draws of \<^verbatim>\<open>random.shuffle\<close>.\<close>

record mutation_draws =
  m_gate :: real
  m_choice :: nat
  m_int1 :: nat
  m_int2 :: nat
  m_unif :: "nat \<Rightarrow> real"
  m_shuffle :: "nat \<Rightarrow> nat"

definition mutation_types :: "mutation_type list" where
  "mutation_types = [Containers, Heights, Order, Adjust, Shuffle, Random_heights]"

definition mutate_containers :: "optimizer \<Rightarrow> individual \<Rightarrow> mutation_draws \<Rightarrow> error + individual" where
  "mutate_containers opt ind dr =
     (case randint 1 (max_containers opt) (m_int1 dr) of
        Inl e \<Rightarrow> Inl e
      | Inr k \<Rightarrow>
          let n = nat k; hs = container_heights ind
          in Inr (ind \<lparr> num_containers := n,
                        container_heights :=
                          take n (hs @ replicate (n - length hs) (max_total_height opt / real n)) \<rparr>))"

definition mutate_heights :: "optimizer \<Rightarrow> individual \<Rightarrow> mutation_draws \<Rightarrow> error + individual" where
  "mutate_heights opt ind dr =
     (let hs = container_heights ind in
      if hs = [] then Inr ind
      else
        let idx = m_int1 dr mod length hs;
            current = hs ! idx;
            delta = uniform (- current * 0.3) (current * 0.3) (m_unif dr 0);
            hs' = hs[idx := max 1 (current + delta)];
            tot = sum_list hs'
        in
        if tot > max_total_height opt then
          (if tot = 0 then Inl ZeroDivisionError
           else Inr (ind \<lparr> container_heights :=
                             map (\<lambda>h. h * (max_total_height opt / tot)) hs' \<rparr>))
        else Inr (ind \<lparr> container_heights := hs' \<rparr>))"

definition mutate_order :: "individual \<Rightarrow> mutation_draws \<Rightarrow> error + individual" where
  "mutate_order ind dr =
     (let ro = rectangle_order ind in
      if length ro > 1 then
        (case sample_two (length ro) (m_int1 dr) (m_int2 dr) of
           Inl e \<Rightarrow> Inl e
         | Inr (i, j) \<Rightarrow> Inr (ind \<lparr> rectangle_order := ro[i := ro ! j, j := ro ! i] \<rparr>))
      else Inr ind)"

text \<open>The loop shared in shape by \<open>adjust\<close> and \<open>random_heights\<close>: \<open>pick i remaining\<close>
  is the height proposed for a container that is not the last.\<close>

fun height_loop ::
  "(nat \<Rightarrow> real \<Rightarrow> real) \<Rightarrow> nat \<Rightarrow> nat list \<Rightarrow> real \<Rightarrow> real list \<Rightarrow> real list" where
  "height_loop pick n [] remaining hs = hs"
| "height_loop pick n (i # idxs) remaining hs =
     (let height = (if i = n - 1 then remaining else min (pick i remaining) remaining)
      in height_loop pick n idxs (remaining - height) (hs @ [height]))"

definition mutate_adjust :: "optimizer \<Rightarrow> individual \<Rightarrow> mutation_draws \<Rightarrow> error + individual" where
  "mutate_adjust opt ind dr =
     (let n = num_containers ind in
      if n > 0 then
        let avg_height = max_total_height opt / real n
        in Inr (ind \<lparr> container_heights :=
                        height_loop (\<lambda>i remaining. avg_height * uniform 0.8 1.2 (m_unif dr i))
                          n [0..<n] (max_total_height opt) [] \<rparr>)
      else Inr ind)"

definition mutate_shuffle :: "individual \<Rightarrow> mutation_draws \<Rightarrow> error + individual" where
  "mutate_shuffle ind dr =
     (let ro = rectangle_order ind; len = length ro in
      if len > 2 then
        (case randint (int (len div 3)) (int (len * 2 div 3)) (m_int1 dr) of
           Inl e \<Rightarrow> Inl e
         | Inr shuffle_size \<Rightarrow>
             (case randint 0 (int len - shuffle_size) (m_int2 dr) of
                Inl e \<Rightarrow> Inl e
              | Inr start_idx \<Rightarrow>
                  let s = nat start_idx; e = nat (start_idx + shuffle_size);
                      subsequence = shuffle (m_shuffle dr) (slice ro s e)
                  in Inr (ind \<lparr> rectangle_order := slice_assign ro s e subsequence \<rparr>)))
      else Inr ind)"

definition mutate_random_heights ::
  "optimizer \<Rightarrow> individual \<Rightarrow> mutation_draws \<Rightarrow> error + individual" where
  "mutate_random_heights opt ind dr =
     (let n = num_containers ind in
      if n > 0 then
        Inr (ind \<lparr> container_heights :=
                     height_loop (\<lambda>i remaining. uniform 0.5 (remaining * 0.8) (m_unif dr i))
                       n [0..<n] (max_total_height opt) [] \<rparr>)
      else Inr ind)"

text \<open>One mutation operator, then mutate itself: the gate, then
  \<^verbatim>\<open>random.choice\<close> over the six operator names.\<close>

fun apply_mutation ::
  "mutation_type \<Rightarrow> optimizer \<Rightarrow> individual \<Rightarrow> mutation_draws \<Rightarrow> error + individual" where
  "apply_mutation Containers opt ind dr = mutate_containers opt ind dr"
| "apply_mutation Heights opt ind dr = mutate_heights opt ind dr"
| "apply_mutation Order opt ind dr = mutate_order ind dr"
| "apply_mutation Adjust opt ind dr = mutate_adjust opt ind dr"
| "apply_mutation Shuffle opt ind dr = mutate_shuffle ind dr"
| "apply_mutation Random_heights opt ind dr = mutate_random_heights opt ind dr"

definition mutate :: "optimizer \<Rightarrow> individual \<Rightarrow> mutation_draws \<Rightarrow> error + individual" where
  "mutate opt ind dr =
     (if m_gate dr < mutation_rate opt
      then apply_mutation (mutation_types ! (m_choice dr mod 6)) opt ind dr
      else Inr ind)"

section \<open>Auxiliary notions of the proofs\<close>

text \<open>The nested loop of get_minimum_height from an arbitrary start value.\<close>

definition overlap_from :: "(rectangle \<times> real) list \<Rightarrow> (rectangle \<times> real) list \<Rightarrow> real \<Rightarrow> real" where
  "overlap_from bs ts a = fold (\<lambda>(b, bx) acc.
             fold (\<lambda>(t, tx) acc'.
                     if x_overlap b bx t tx then max acc' (fl (r_height b + r_height t)) else acc')
                  ts acc)
          bs a"

text \<open>Two lists of placed rectangles, or two rectangle tables, that differ only in
  that heights were raised: same positions, same widths.\<close>

definition heights_raised :: "(rectangle \<times> real) list \<Rightarrow> (rectangle \<times> real) list \<Rightarrow> bool" where
  "heights_raised ps ps' =
     list_all2 (\<lambda>(r, x) (r', x'). x' = x \<and> r_width r' = r_width r \<and> r_height r \<le> r_height r') ps ps'"

definition table_raised :: "rectangle list \<Rightarrow> rectangle list \<Rightarrow> bool" where
  "table_raised rs rs' =
     (length rs' = length rs \<and>
      (\<forall>i < length rs. r_width (rs' ! i) = r_width (rs ! i) \<and> r_height (rs ! i) \<le> r_height (rs' ! i)))"

text \<open>Every item of the container can be read from the rectangle table.\<close>

definition items_ok :: "rectangle list \<Rightarrow> container \<Rightarrow> bool" where
  "items_ok rs c =
     ((\<exists>bs. lookup_items rs (bottom_rectangles c) = Inr bs)
      \<and> (\<exists>ts. lookup_items rs (top_rectangles c) = Inr ts))"

text \<open>What of a container the height pass leaves alone: its id, its width and the
  items on its two edges with their x-positions.\<close>

definition placement :: "container \<Rightarrow> int \<times> real \<times> (int \<times> real) list \<times> (int \<times> real) list" where
  "placement c = (c_id c, c_width c, bottom_rectangles c, top_rectangles c)"

text \<open>\<open>rectangle_order\<close> is a permutation of \<open>0 \<dots> N - 1\<close>: it has the same elements,
  each as often, as \<^verbatim>\<open>list(range(N))\<close>.\<close>

definition is_permutation :: "nat \<Rightarrow> int list \<Rightarrow> bool" where
  "is_permutation N xs = (mset xs = mset (map int [0..<N]))"

text \<open>Containers of width \<open>W\<close> and height \<open>H\<close> with no item, with one item at \<open>x = 0\<close> on
  the bottom edge, and with one item at \<open>x = 0\<close> on each edge.\<close>

definition vacant :: "real \<Rightarrow> real \<Rightarrow> nat \<Rightarrow> container" where
  "vacant W H k =
     \<lparr> c_width = W, c_height = H, c_id = int k, bottom_rectangles = [], top_rectangles = [] \<rparr>"

definition half_filled :: "real \<Rightarrow> real \<Rightarrow> nat \<Rightarrow> int \<Rightarrow> container" where
  "half_filled W H k i =
     \<lparr> c_width = W, c_height = H, c_id = int k, bottom_rectangles = [(i, 0)],
       top_rectangles = [] \<rparr>"

definition filled :: "real \<Rightarrow> real \<Rightarrow> nat \<Rightarrow> int \<Rightarrow> int \<Rightarrow> container" where
  "filled W H k i j =
     \<lparr> c_width = W, c_height = H, c_id = int k, bottom_rectangles = [(i, 0)],
       top_rectangles = [(j, 0)] \<rparr>"

text \<open>A table of \<open>2K\<close> rectangles, all of width \<open>W\<close> and of non-negative height, in
  which rectangle \<open>2k + 1\<close> fits on top of rectangle \<open>2k\<close> under the height budget
  \<open>H\<close>; and container \<open>k\<close> holding that pair.\<close>

definition pairs_fit :: "rectangle list \<Rightarrow> real \<Rightarrow> real \<Rightarrow> nat \<Rightarrow> bool" where
  "pairs_fit rs W H K =
     (length rs = 2 * K \<and> 0 < W
      \<and> list_all (\<lambda>r. r_width r = W \<and> 0 \<le> r_height r) rs
      \<and> list_all (\<lambda>k. r_height (rs ! (2 * k + 1)) \<le> H - r_height (rs ! (2 * k))) [0..<K])"

definition pair_filled :: "real \<Rightarrow> real \<Rightarrow> nat \<Rightarrow> container" where
  "pair_filled W H k = filled W H k (int (2 * k)) (int (2 * k + 1))"

section \<open>Problem instances used below\<close>

text \<open>Scenario C of the specification: two rectangles \<open>(5, 3)\<close> in containers of width
  5, at most one container, total height at most 10; the GA parameters are the
  defaults of the constructor. The individual has one container with height budget 10.\<close>

definition scenario_C_optimizer :: optimizer where
  "scenario_C_optimizer =
     \<lparr> rectangles = [\<lparr> r_width = 5, r_height = 3, r_id = 0 \<rparr>,
                     \<lparr> r_width = 5, r_height = 3, r_id = 1 \<rparr>],
       container_width = 5, max_total_height = 10, max_containers = 1,
       population_size = 100, generations = 500, mutation_rate = 0.2,
       crossover_rate = 0.8, elitism_count = 10, population = [],
       best_individual = None \<rparr>"

definition scenario_C_individual :: individual where
  "scenario_C_individual =
     \<lparr> ind_rectangles = rectangles scenario_C_optimizer, ind_container_width = 5,
       ind_max_total_height = 10, ind_max_containers = 1, num_containers = 1,
       rectangle_order = [0, 1], container_heights = [10], fitness = 0,
       containers = [], total_height_used = 0, rectangles_placed = 0 \<rparr>"

text \<open>An individual over the rectangles \<open>(4, 3)\<close> and \<open>(3, 2)\<close> with two containers of
  unequal height budgets 3 and 7 (as the \<open>random_heights\<close> mutation can produce
  them), and at most three containers.\<close>

definition uneven_individual :: individual where
  "uneven_individual =
     \<lparr> ind_rectangles = [\<lparr> r_width = 4, r_height = 3, r_id = 0 \<rparr>,
                         \<lparr> r_width = 3, r_height = 2, r_id = 1 \<rparr>],
       ind_container_width = 7, ind_max_total_height = 10, ind_max_containers = 3,
       num_containers = 2, rectangle_order = [0, 1], container_heights = [3, 7],
       fitness = 0, containers = [], total_height_used = 0, rectangles_placed = 0 \<rparr>"

text \<open>The container of scenario C after packing with every jitter draw at
  \<open>1 / 2\<close>, and the rectangle table of scenario C with the second rectangle raised
  from height 3 to 4.\<close>

definition scenario_C_container :: container where
  "scenario_C_container =
     \<lparr> c_width = 5, c_height = 303 / 50, c_id = 0,
       bottom_rectangles = [(0, 0)], top_rectangles = [(1, 0)] \<rparr>"

definition raised_rectangles :: "rectangle list" where
  "raised_rectangles = [\<lparr> r_width = 5, r_height = 3, r_id = 0 \<rparr>,
                        \<lparr> r_width = 5, r_height = 4, r_id = 1 \<rparr>]"

text \<open>Scenario C's individual after an evaluation has stored its results.\<close>

definition scenario_C_evaluated :: individual where
  "scenario_C_evaluated =
     scenario_C_individual \<lparr> containers := [scenario_C_container], rectangles_placed := 2,
                             total_height_used := 303 / 50, fitness := 1 \<rparr>"

text \<open>Scenario B of the specification: one rectangle \<open>(8, 2)\<close>, wider than the
  containers of width 7.\<close>

definition scenario_B_optimizer :: optimizer where
  "scenario_B_optimizer =
     \<lparr> rectangles = [\<lparr> r_width = 8, r_height = 2, r_id = 0 \<rparr>],
       container_width = 7, max_total_height = 10, max_containers = 1,
       population_size = 100, generations = 500, mutation_rate = 0.2,
       crossover_rate = 0.8, elitism_count = 10, population = [],
       best_individual = None \<rparr>"

definition scenario_B_individual :: individual where
  "scenario_B_individual =
     \<lparr> ind_rectangles = rectangles scenario_B_optimizer, ind_container_width = 7,
       ind_max_total_height = 10, ind_max_containers = 1, num_containers = 1,
       rectangle_order = [0], container_heights = [10], fitness = 0,
       containers = [], total_height_used = 0, rectangles_placed = 0 \<rparr>"

text \<open>The instance of the class docstring: rectangles \<open>(4, 3)\<close>, \<open>(3, 2)\<close>, \<open>(2, 5)\<close>,
  width 10, total height 15, at most three containers; an individual over it with a
  given order, and one set of draws for crossover and for mutate.\<close>

definition three_optimizer :: optimizer where
  "three_optimizer =
     \<lparr> rectangles = [\<lparr> r_width = 4, r_height = 3, r_id = 0 \<rparr>,
                     \<lparr> r_width = 3, r_height = 2, r_id = 1 \<rparr>,
                     \<lparr> r_width = 2, r_height = 5, r_id = 2 \<rparr>],
       container_width = 10, max_total_height = 15, max_containers = 3,
       population_size = 100, generations = 500, mutation_rate = 0.2,
       crossover_rate = 0.8, elitism_count = 10, population = [],
       best_individual = None \<rparr>"

definition three_individual :: "int list \<Rightarrow> individual" where
  "three_individual ord =
     \<lparr> ind_rectangles = rectangles three_optimizer, ind_container_width = 10,
       ind_max_total_height = 15, ind_max_containers = 3, num_containers = 2,
       rectangle_order = ord, container_heights = [15 / 2, 15 / 2], fitness = 0,
       containers = [], total_height_used = 0, rectangles_placed = 0 \<rparr>"

definition three_crossover_draws :: crossover_draws where
  "three_crossover_draws =
     \<lparr> x_gate = 0, x_copy1 = 0, x_copy2 = 0, x_child1 = 0, x_child2 = 1, x_count = 0,
       x_height = (\<lambda>i. 0), x_cut1 = 2, x_cut2 = 0 \<rparr>"

definition three_mutation_draws :: mutation_draws where
  "three_mutation_draws =
     \<lparr> m_gate = 0, m_choice = 4, m_int1 = 1, m_int2 = 0, m_unif = (\<lambda>i. 0),
       m_shuffle = (\<lambda>i. 0) \<rparr>"

text \<open>Two rectangles of width 5 whose heights are the doubles that Python writes
  \<^verbatim>\<open>0.1\<close> and \<^verbatim>\<open>0.7\<close>, that is \<open>3602879701896397 / 2^55\<close> and \<open>3152519739159347 / 2^52\<close>
  (\<^verbatim>\<open>float.as_integer_ratio\<close>), in containers of width 5, at most one container, total
  height at most 10. The individual has one container with height budget 10.\<close>

definition tenths_optimizer :: optimizer where
  "tenths_optimizer =
     \<lparr> rectangles = [\<lparr> r_width = 5, r_height = 3602879701896397 / 2 ^ 55, r_id = 0 \<rparr>,
                     \<lparr> r_width = 5, r_height = 3152519739159347 / 2 ^ 52, r_id = 1 \<rparr>],
       container_width = 5, max_total_height = 10, max_containers = 1,
       population_size = 100, generations = 500, mutation_rate = 0.2,
       crossover_rate = 0.8, elitism_count = 10, population = [],
       best_individual = None \<rparr>"

definition tenths_individual :: individual where
  "tenths_individual =
     \<lparr> ind_rectangles = rectangles tenths_optimizer, ind_container_width = 5,
       ind_max_total_height = 10, ind_max_containers = 1, num_containers = 1,
       rectangle_order = [0, 1], container_heights = [10], fitness = 0,
       containers = [], total_height_used = 0, rectangles_placed = 0 \<rparr>"

text \<open>A family of instances with \<open>2K\<close> rectangles of width 5 for containers of width
  5, at most \<open>K\<close> containers and total height at most \<open>16 K\<close>. The first two
  rectangles have the heights \<^verbatim>\<open>1.6\<close> and \<^verbatim>\<open>11.2\<close>, the doubles
  \<open>3602879701896397 / 2^51\<close> and \<open>3152519739159347 / 2^48\<close>; all others have height 8.
  \<open>paired_individual\<close> is the individual the constructor builds when its \<^verbatim>\<open>randint\<close>
  yields \<open>K\<close>: \<open>K\<close> containers with the height budget 16 each, the rectangles in
  index order. \<open>single_individual\<close> has one container with the whole height budget
  and an order that starts with the rectangles 2 and 3. \<open>first_draw_zero\<close> is a
  stream of \<^verbatim>\<open>random()\<close> values for the height pass: \<open>0\<close> for the first container that
  holds an item, \<open>1 / 2\<close> for the others.\<close>

definition paired_rectangles :: "nat \<Rightarrow> rectangle list" where
  "paired_rectangles K =
     [\<lparr> r_width = 5, r_height = 3602879701896397 / 2 ^ 51, r_id = 0 \<rparr>,
      \<lparr> r_width = 5, r_height = 3152519739159347 / 2 ^ 48, r_id = 1 \<rparr>]
     @ map (\<lambda>i. \<lparr> r_width = 5, r_height = 8, r_id = int i \<rparr>) [2..<2 * K]"

definition paired_optimizer :: "nat \<Rightarrow> optimizer" where
  "paired_optimizer K =
     \<lparr> rectangles = paired_rectangles K,
       container_width = 5, max_total_height = 16 * real K, max_containers = int K,
       population_size = 100, generations = 500, mutation_rate = 0.2,
       crossover_rate = 0.8, elitism_count = 10, population = [],
       best_individual = None \<rparr>"

definition paired_individual :: "nat \<Rightarrow> individual" where
  "paired_individual K =
     \<lparr> ind_rectangles = paired_rectangles K, ind_container_width = 5,
       ind_max_total_height = 16 * real K, ind_max_containers = int K, num_containers = K,
       rectangle_order = map int [0..<2 * K], container_heights = replicate K 16,
       fitness = 0, containers = [], total_height_used = 0, rectangles_placed = 0 \<rparr>"

definition single_individual :: "nat \<Rightarrow> individual" where
  "single_individual K =
     \<lparr> ind_rectangles = paired_rectangles K, ind_container_width = 5,
       ind_max_total_height = 16 * real K, ind_max_containers = int K, num_containers = 1,
       rectangle_order = map int ([2..<2 * K] @ [0, 1]), container_heights = [16 * real K],
       fitness = 0, containers = [], total_height_used = 0, rectangles_placed = 0 \<rparr>"

definition first_draw_zero :: "nat \<Rightarrow> real" where
  "first_draw_zero k = (if k = 0 then 0 else 1 / 2)"

section \<open>Individual.copy\<close>

lemma copy_container_heights:
  "copy self d = Inr c \<Longrightarrow>
     \<exists>k. randint 1 (ind_max_containers self) d = Inr k \<and>
         container_heights c = replicate (nat k) (ind_max_total_height self / real_of_int k)"
  by (auto simp: copy_def Individual_init_def split: sum.splits)

text \<open>
  C1. A copy is to carry the \<open>container_heights\<close> of the original.
  \<^verbatim>\<open>Individual.copy\<close> assigns \<open>num_containers\<close>, \<open>rectangle_order\<close>, the fitness and the
  evaluated containers, but never \<open>container_heights\<close>: the copy keeps the list its
  constructor built from a fresh \<^verbatim>\<open>randint\<close> draw. For the individual with heights
  \<open>[3, 7]\<close> and the draw 0, the copy has two containers and the single height 10.
\<close>

theorem copy_loses_container_heights:
  "\<exists>c. copy uneven_individual 0 = Inr c
       \<and> num_containers c = 2
       \<and> container_heights uneven_individual = [3, 7]
       \<and> container_heights c = [10]"
  by (simp add: copy_def Individual_init_def randint_def uneven_individual_def)

section \<open>Construction of the optimizer\<close>




section \<open>Properties of the rounding\<close>

lemma round_even_floor: "\<lfloor>x\<rfloor> \<le> round_even x" "round_even x \<le> \<lfloor>x\<rfloor> + 1"
  by (simp_all add: round_even_def Let_def)

lemma round_even_of_int [simp]: "round_even (of_int n) = n"
  by (simp add: round_even_def)

lemma round_even_numeral [simp]: "round_even (numeral k) = numeral k"
  using round_even_of_int[of "numeral k"] by simp

lemma round_even_ge:
  assumes "of_int n \<le> x" shows "n \<le> round_even x"
proof -
  have "n \<le> \<lfloor>x\<rfloor>" using assms by (simp add: le_floor_iff)
  then show ?thesis using round_even_floor(1)[of x] by linarith
qed

lemma round_even_le:
  assumes "x \<le> of_int n" shows "round_even x \<le> n"
proof (cases "x = of_int n")
  case True then show ?thesis by simp
next
  case False
  with assms have "x < of_int n" by simp
  then have "\<lfloor>x\<rfloor> < n" by (simp add: floor_less_iff)
  then show ?thesis using round_even_floor(2)[of x] by linarith
qed

lemma round_even_mono:
  assumes "x \<le> y" shows "round_even x \<le> round_even y"
proof (cases "\<lfloor>x\<rfloor> = \<lfloor>y\<rfloor>")
  case True
  then show ?thesis using assms by (auto simp: round_even_def Let_def)
next
  case False
  have "\<lfloor>x\<rfloor> \<le> \<lfloor>y\<rfloor>" using assms by (rule floor_mono)
  with False have "\<lfloor>x\<rfloor> + 1 \<le> \<lfloor>y\<rfloor>" by simp
  then show ?thesis using round_even_floor(2)[of x] round_even_floor(1)[of y] by linarith
qed

lemma round_even_minus: "round_even (- x) = - round_even x"
proof (cases "x = of_int \<lfloor>x\<rfloor>")
  case True
  then obtain n where "x = of_int n" ..
  then have "- x = of_int (- n)" by simp
  then show ?thesis using \<open>x = of_int n\<close> by (simp only: round_even_of_int)
next
  case False
  have fx: "of_int \<lfloor>x\<rfloor> \<le> x" "x < of_int \<lfloor>x\<rfloor> + 1" by linarith+
  from False have "of_int \<lfloor>x\<rfloor> \<noteq> x" by (rule not_sym)
  with fx(1) have lt: "of_int \<lfloor>x\<rfloor> < x" by (rule le_neq_trans)
  have "\<lfloor>- x\<rfloor> = - \<lfloor>x\<rfloor> - 1"
  proof (rule floor_unique)
    show "of_int (- \<lfloor>x\<rfloor> - 1) \<le> - x"
      using fx(2) by (simp only: of_int_diff of_int_minus of_int_1)
    show "- x < of_int (- \<lfloor>x\<rfloor> - 1) + 1"
      using lt by (simp only: of_int_diff of_int_minus of_int_1)
  qed
  then show ?thesis using lt fx(2)
    by (auto simp: round_even_def Let_def)
qed

lemma powr_int_Suc: "2 powr (real_of_int e + 1) = (2::real) powi (e + 1)"
  using powr_real_of_int'[of 2 "e + 1"] by simp

lemma floor_log2_bounds:
  assumes "0 < (x::real)"
  shows "2 powi \<lfloor>log 2 x\<rfloor> \<le> x" "x < 2 powi (\<lfloor>log 2 x\<rfloor> + 1)"
proof -
  have "2 powr real_of_int \<lfloor>log 2 x\<rfloor> \<le> x \<and> x < 2 powr real_of_int (\<lfloor>log 2 x\<rfloor> + 1)"
    using floor_log_eq_powr_iff[of x 2 "\<lfloor>log 2 x\<rfloor>"] assms by simp
  then show "2 powi \<lfloor>log 2 x\<rfloor> \<le> x" "x < 2 powi (\<lfloor>log 2 x\<rfloor> + 1)"
    by (simp_all add: powr_real_of_int' powr_int_Suc)
qed

lemma floor_log2_eq:
  assumes "2 powi e \<le> (x::real)" "x < 2 powi (e + 1)"
  shows "\<lfloor>log 2 x\<rfloor> = e"
proof -
  have "0 < (2::real) powi e" by simp
  with assms(1) have x: "0 < x" by linarith
  have "2 powr real_of_int e \<le> x \<and> x < 2 powr real_of_int (e + 1)"
    using assms by (simp add: powr_real_of_int' powr_int_Suc)
  then show ?thesis using floor_log_eq_powr_iff[of x 2 e] x by simp
qed

lemma fl_eq:
  assumes "2 powi e \<le> \<bar>x\<bar>" "\<bar>x\<bar> < 2 powi (e + 1)"
  shows "fl x = of_int (round_even (x * 2 powi (52 - e))) * 2 powi (e - 52)"
proof -
  have "0 < (2::real) powi e" by simp
  with assms(1) have "0 < \<bar>x\<bar>" by linarith
  then have "x \<noteq> 0" by simp
  then show ?thesis using floor_log2_eq[OF assms] by (simp add: fl_def)
qed

lemma fl_minus: "fl (- x) = - fl x"
  by (simp add: fl_def round_even_minus Let_def)

lemma fl_0 [simp]: "fl 0 = 0"
  by (simp add: fl_def)

lemma fl_pos_bounds:
  assumes "0 < x"
  shows "2 powi \<lfloor>log 2 x\<rfloor> \<le> fl x" "fl x \<le> 2 powi (\<lfloor>log 2 x\<rfloor> + 1)"
proof -
  let ?e = "\<lfloor>log 2 x\<rfloor>"
  have f: "fl x = of_int (round_even (x * 2 powi (52 - ?e))) * 2 powi (?e - 52)"
    using assms by (simp add: fl_def Let_def)
  have p: "0 < (2::real) powi (52 - ?e)" "0 < (2::real) powi (?e - 52)" by simp_all
  have a: "(2::real) powi ?e * 2 powi (52 - ?e) = of_int (2 ^ 52)"
    by (simp add: power_int_add[symmetric])
  have b: "(2::real) powi (?e + 1) * 2 powi (52 - ?e) = of_int (2 ^ 53)"
    by (simp add: power_int_add[symmetric])
  have "of_int (2 ^ 52) \<le> x * 2 powi (52 - ?e)"
    unfolding a[symmetric] using floor_log2_bounds(1)[OF assms] p(1) by (simp only: mult_le_cancel_right_pos)
  then have lo: "2 ^ 52 \<le> round_even (x * 2 powi (52 - ?e))" by (rule round_even_ge)
  have "x * 2 powi (52 - ?e) \<le> of_int (2 ^ 53)"
    unfolding b[symmetric] using floor_log2_bounds(2)[OF assms] p(1) by (simp only: mult_le_cancel_right_pos less_imp_le)
  then have hi: "round_even (x * 2 powi (52 - ?e)) \<le> 2 ^ 53" by (rule round_even_le)
  have c: "of_int (2 ^ 52) * (2::real) powi (?e - 52) = 2 powi ?e"
    using power_int_add[of "2::real" 52 "?e - 52"] by simp
  have d: "of_int (2 ^ 53) * (2::real) powi (?e - 52) = 2 powi (?e + 1)"
    using power_int_add[of "2::real" 53 "?e - 52"] by (simp add: add.commute)
  have "of_int (2 ^ 52) * (2::real) powi (?e - 52) \<le> fl x"
    unfolding f using lo p(2) by (simp only: mult_le_cancel_right_pos of_int_le_iff)
  then show "2 powi ?e \<le> fl x" unfolding c .
  have "fl x \<le> of_int (2 ^ 53) * (2::real) powi (?e - 52)"
    unfolding f using hi p(2) by (simp only: mult_le_cancel_right_pos of_int_le_iff)
  then show "fl x \<le> 2 powi (?e + 1)" unfolding d .
qed

lemma fl_mono_pos:
  assumes "0 < x" "x \<le> y"
  shows "fl x \<le> fl y"
proof -
  let ?e = "\<lfloor>log 2 x\<rfloor>" and ?e' = "\<lfloor>log 2 y\<rfloor>"
  have y: "0 < y" using assms by linarith
  have le: "?e \<le> ?e'" using assms y by (intro floor_mono) simp
  show ?thesis
  proof (cases "?e = ?e'")
    case True
    have "x * 2 powi (52 - ?e) \<le> y * 2 powi (52 - ?e)"
      using assms(2) by (simp add: mult_right_mono)
    then have "round_even (x * 2 powi (52 - ?e)) \<le> round_even (y * 2 powi (52 - ?e))"
      by (rule round_even_mono)
    then have "of_int (round_even (x * 2 powi (52 - ?e))) * (2::real) powi (?e - 52)
             \<le> of_int (round_even (y * 2 powi (52 - ?e))) * 2 powi (?e - 52)"
      by (simp add: mult_right_mono)
    then show ?thesis using assms(1) y True by (simp add: fl_def Let_def)
  next
    case False
    with le have "?e + 1 \<le> ?e'" by simp
    then have "(2::real) powi (?e + 1) \<le> 2 powi ?e'" by (intro power_int_increasing) simp_all
    then show ?thesis using fl_pos_bounds(2)[OF assms(1)] fl_pos_bounds(1)[OF y] by linarith
  qed
qed

lemma fl_nonneg: "0 \<le> x \<Longrightarrow> 0 \<le> fl x"
proof (cases "x = 0")
  case True then show ?thesis by simp
next
  case False
  assume "0 \<le> x"
  with False have x: "0 < x" by simp
  have "0 < (2::real) powi \<lfloor>log 2 x\<rfloor>" by simp
  then show ?thesis using fl_pos_bounds(1)[OF x] by linarith
qed

lemma fl_mono:
  assumes "x \<le> y" shows "fl x \<le> fl y"
proof -
  consider "0 < x" | "x \<le> 0" "0 \<le> y" | "y < 0" by linarith
  then show ?thesis
  proof cases
    case 1 then show ?thesis using assms by (rule fl_mono_pos)
  next
    case 2
    have "0 \<le> fl (- x)" using 2(1) by (intro fl_nonneg) simp
    then have "fl x \<le> 0" by (simp add: fl_minus)
    also have "0 \<le> fl y" using 2(2) by (rule fl_nonneg)
    finally show ?thesis .
  next
    case 3
    have "fl (- y) \<le> fl (- x)" using 3 assms by (intro fl_mono_pos) simp_all
    then show ?thesis by (simp add: fl_minus)
  qed
qed

lemma fl_6: "fl 6 = 6"
  using fl_eq[of 2 6] by simp

section \<open>Scenario C\<close>

text \<open>
  C8. In scenario C, for either processing order and any jitter draw in \<open>[0, 1)\<close>,
  pack_rectangles places both rectangles in the one container, one on the bottom
  edge and one on the top edge; the container's minimum height is 6 and it has no
  clash.
\<close>

theorem scenario_C_packing:
  assumes "rectangles opt = [\<lparr> r_width = 5, r_height = 3, r_id = 0 \<rparr>,
                             \<lparr> r_width = 5, r_height = 3, r_id = 1 \<rparr>]"
      and "container_width opt = 5" and "max_total_height opt = 10"
      and "num_containers ind = 1" and "container_heights ind = [10]"
      and "rectangle_order ind = [0, 1] \<or> rectangle_order ind = [1, 0]"
      and "0 \<le> u 0"
  shows "\<exists>c. pack_rectangles opt u ind = Inr ([c], 2)
           \<and> length (bottom_rectangles c) = 1 \<and> length (top_rectangles c) = 1
           \<and> set (map fst (bottom_rectangles c @ top_rectangles c)) = {0, 1}
           \<and> get_minimum_height (rectangles opt) c = Inr 6
           \<and> has_rectangle_clashes (rectangles opt) c = Inr False"
  using assms
  apply (elim disjE)
   apply (simp_all add: pack_rectangles_def make_containers_def py_index_def
      place_in_container_def find_bottom_position_def find_top_position_def
      can_place_at_bottom_def can_place_at_top_def get_bottom_height_def get_top_height_def
      find_position_def occupied_ranges_def get_minimum_height_def minimum_height_def
      overlap_height_def x_overlap_def uniform_def has_rectangle_clashes_def has_clash_def
      clash_pair_def insert_commute fl_6)
  done

theorem scenario_C_packing_witness:
  "\<exists>c. pack_rectangles scenario_C_optimizer (\<lambda>k. 1 / 2) scenario_C_individual = Inr ([c], 2)
       \<and> length (bottom_rectangles c) = 1 \<and> length (top_rectangles c) = 1
       \<and> set (map fst (bottom_rectangles c @ top_rectangles c)) = {0, 1}
       \<and> get_minimum_height (rectangles scenario_C_optimizer) c = Inr 6
       \<and> has_rectangle_clashes (rectangles scenario_C_optimizer) c = Inr False"
  using scenario_C_packing [of scenario_C_optimizer scenario_C_individual "\<lambda>k. 1 / 2"]
  by (simp add: scenario_C_optimizer_def scenario_C_individual_def)

section \<open>Heights of one edge and the minimum height\<close>

lemma fold_max_height_ge_acc:
  "a \<le> fold (\<lambda>(r', x') m. max m (r_height r')) ps (a::real)"
proof (induction ps arbitrary: a)
  case Nil show ?case by simp
next
  case (Cons p ps)
  obtain r x where p: "p = (r, x)" by (cases p)
  have "a \<le> max a (r_height r)" by simp
  also note Cons.IH
  finally show ?case using p by simp
qed

lemma fold_max_height_mem:
  "(r, x) \<in> set ps \<Longrightarrow> r_height r \<le> fold (\<lambda>(r', x') m. max m (r_height r')) ps (a::real)"
proof (induction ps arbitrary: a)
  case Nil then show ?case by simp
next
  case (Cons p ps)
  show ?case
  proof (cases "(r, x) = p")
    case True
    have "r_height r \<le> max a (r_height r)" by simp
    also have "\<dots> \<le> fold (\<lambda>(r', x') m. max m (r_height r')) ps (max a (r_height r))"
      by (rule fold_max_height_ge_acc)
    finally show ?thesis using True by auto
  next
    case False
    with Cons.prems have "(r, x) \<in> set ps" by auto
    from Cons.IH[OF this] show ?thesis by (cases p) simp
  qed
qed

lemma max_height_mem: "(r, x) \<in> set ps \<Longrightarrow> r_height r \<le> max_height ps"
proof (cases ps)
  case Nil then show "(r, x) \<in> set ps \<Longrightarrow> ?thesis" by simp
next
  case (Cons p qs)
  assume mem: "(r, x) \<in> set ps"
  obtain r0 x0 where p: "p = (r0, x0)" by (cases p)
  show ?thesis
  proof (cases "(r, x) = p")
    case True
    then show ?thesis using Cons p fold_max_height_ge_acc[of "r_height r0" qs] by simp
  next
    case False
    with mem Cons have "(r, x) \<in> set qs" by auto
    then show ?thesis using Cons p fold_max_height_mem[of r x qs "r_height r0"] by simp
  qed
qed


lemma inner_ge_acc:
  "a \<le> fold (\<lambda>(t, tx) acc'. if x_overlap b bx t tx then max acc' (fl (r_height b + r_height t)) else acc') ts (a::real)"
proof (induction ts arbitrary: a)
  case Nil show ?case by simp
next
  case (Cons p ts)
  obtain t tx where p: "p = (t, tx)" by (cases p)
  have "a \<le> (if x_overlap b bx t tx then max a (fl (r_height b + r_height t)) else a)" by simp
  also note Cons.IH
  finally show ?case using p by simp
qed

lemma inner_mem:
  "(t, tx) \<in> set ts \<Longrightarrow> x_overlap b bx t tx \<Longrightarrow>
   fl (r_height b + r_height t) \<le> fold (\<lambda>(t, tx) acc'. if x_overlap b bx t tx then max acc' (fl (r_height b + r_height t)) else acc') ts (a::real)"
proof (induction ts arbitrary: a)
  case Nil then show ?case by simp
next
  case (Cons p ts)
  show ?case
  proof (cases "(t, tx) = p")
    case True
    have "fl (r_height b + r_height t) \<le> max a (fl (r_height b + r_height t))" by simp
    also note inner_ge_acc
    finally show ?thesis using True Cons.prems(2) by auto
  next
    case False
    with Cons.prems have "(t, tx) \<in> set ts" by auto
    from Cons.IH[OF this Cons.prems(2)] show ?thesis by (cases p) simp
  qed
qed

lemma overlap_from_simps:
  "overlap_from [] ts a = a"
  "overlap_from ((b, bx) # bs) ts a = overlap_from bs ts (fold (\<lambda>(t, tx) acc'.
                     if x_overlap b bx t tx then max acc' (fl (r_height b + r_height t)) else acc') ts a)"
  by (simp_all add: overlap_from_def)

lemma overlap_from_ge_acc: "a \<le> overlap_from bs ts a"
proof (induction bs arbitrary: a)
  case Nil show ?case by (simp add: overlap_from_simps)
next
  case (Cons p bs)
  obtain b bx where p: "p = (b, bx)" by (cases p)
  let ?i = "fold (\<lambda>(t, tx) acc'. if x_overlap b bx t tx
               then max acc' (fl (r_height b + r_height t)) else acc') ts a"
  have "a \<le> ?i" by (rule inner_ge_acc)
  also have "\<dots> \<le> overlap_from bs ts ?i" by (rule Cons.IH)
  finally show ?case using p by (simp add: overlap_from_simps)
qed

lemma overlap_from_mem:
  "(b, bx) \<in> set bs \<Longrightarrow> (t, tx) \<in> set ts \<Longrightarrow> x_overlap b bx t tx \<Longrightarrow>
     fl (r_height b + r_height t) \<le> overlap_from bs ts a"
proof (induction bs arbitrary: a)
  case Nil then show ?case by simp
next
  case (Cons p bs)
  obtain b' bx' where p: "p = (b', bx')" by (cases p)
  show ?case
  proof (cases "(b, bx) = p")
    case True
    let ?i = "fold (\<lambda>(t, tx) acc'. if x_overlap b bx t tx
                 then max acc' (fl (r_height b + r_height t)) else acc') ts a"
    have "fl (r_height b + r_height t) \<le> ?i" by (rule inner_mem[OF Cons.prems(2,3)])
    also have "\<dots> \<le> overlap_from bs ts ?i" by (rule overlap_from_ge_acc)
    finally have "fl (r_height b + r_height t) \<le> overlap_from ((b, bx) # bs) ts a"
      by (simp add: overlap_from_simps)
    then show ?thesis using True by simp
  next
    case False
    with Cons.prems have "(b, bx) \<in> set bs" by auto
    from Cons.IH[OF this Cons.prems(2,3)] show ?thesis using p by (simp add: overlap_from_simps)
  qed
qed

lemma overlap_height_from: "overlap_height bs ts = overlap_from bs ts 0"
  by (simp add: overlap_height_def overlap_from_def)


lemma minimum_height_pair:
  assumes "(b, bx) \<in> set bs" "(t, tx) \<in> set ts" "x_overlap b bx t tx"
      and "r_height b + r_height t \<le> fl (r_height b + r_height t)"
  shows "r_height b + r_height t \<le> minimum_height bs ts"
proof -
  have ne: "bs \<noteq> []" "ts \<noteq> []" using assms by auto
  have "fl (r_height b + r_height t) \<le> overlap_height bs ts"
    using overlap_from_mem[OF assms(1-3)] by (simp add: overlap_height_from)
  with assms(4) have o: "r_height b + r_height t \<le> overlap_height bs ts" by linarith
  have hb: "r_height b \<le> max_height bs" using assms(1) by (rule max_height_mem)
  have ht: "r_height t \<le> max_height ts" using assms(2) by (rule max_height_mem)
  show ?thesis
  proof (cases "overlap_height bs ts = 0")
    case True
    with o have "r_height b + r_height t \<le> 0" by simp
    then have "r_height b + r_height t \<le> max (r_height b) (r_height t)" by linarith
    also have "\<dots> \<le> max (max_height bs) (max_height ts)" using hb ht by linarith
    finally show ?thesis using True ne by (simp add: minimum_height_def Let_def max.coboundedI1)
  next
    case False
    then show ?thesis using o ne by (simp add: minimum_height_def Let_def max.coboundedI1)
  qed
qed

lemma no_clash_at_jittered_minimum:
  assumes "0 \<le> j"
      and "\<forall>(b, bx) \<in> set bs. \<forall>(t, tx) \<in> set ts.
             r_height b + r_height t \<le> fl (r_height b + r_height t)"
  shows "\<not> has_clash (minimum_height bs ts + j * minimum_height bs ts) bs ts"
proof -
  let ?m = "minimum_height bs ts"
  have "\<not> clash_pair (?m + j * ?m) b bx t tx"
    if bt: "(b, bx) \<in> set bs" "(t, tx) \<in> set ts" for b bx t tx
  proof (cases "x_overlap b bx t tx")
    case False then show ?thesis by (simp add: clash_pair_def)
  next
    case True
    have "r_height b + r_height t \<le> fl (r_height b + r_height t)" using assms(2) bt by auto
    with bt True have le: "r_height b + r_height t \<le> ?m" by (rule minimum_height_pair)
    show ?thesis
    proof (cases "0 \<le> ?m")
      case True
      then have "0 \<le> j * ?m" using assms(1) by simp
      then show ?thesis using le by (simp add: clash_pair_def)
    next
      case False
      then have "j * ?m \<le> 0" using assms(1) by (simp add: mult_nonneg_nonpos)
      then have "?m + j * ?m \<le> 0" using False by linarith
      then show ?thesis by (simp add: clash_pair_def)
    qed
  qed
  then show ?thesis by (auto simp: has_clash_def list_ex_iff)
qed

section \<open>The height pass of pack_rectangles\<close>

lemma get_minimum_height_c_height:
  "get_minimum_height rs (c \<lparr> c_height := h \<rparr>) = get_minimum_height rs c"
  by (simp add: get_minimum_height_def split: sum.splits)

lemma optimize_heights_result:
  "optimize_heights rs u k cs = Inr cs' \<Longrightarrow> c' \<in> set cs' \<Longrightarrow>
     (bottom_rectangles c' = [] \<and> top_rectangles c' = []) \<or>
     (\<exists>m j. get_minimum_height rs c' = Inr m \<and> c_height c' = m + uniform 0 0.02 (u j) * m)"
proof (induction cs arbitrary: k cs')
  case Nil then show ?case by simp
next
  case (Cons c cs)
  show ?case
  proof (cases "bottom_rectangles c \<noteq> [] \<or> top_rectangles c \<noteq> []")
    case True
    with Cons.prems(1) obtain m cs1 where
      m: "get_minimum_height rs c = Inr m" and
      r: "optimize_heights rs u (Suc k) cs = Inr cs1" and
      e: "cs' = c \<lparr> c_height := m + uniform 0 0.02 (u k) * m \<rparr> # cs1"
      by (auto split: sum.splits)
    show ?thesis
    proof (cases "c' = c \<lparr> c_height := m + uniform 0 0.02 (u k) * m \<rparr>")
      case True
      then show ?thesis using m by (auto simp: get_minimum_height_c_height)
    next
      case False
      with Cons.prems(2) e have "c' \<in> set cs1" by auto
      from Cons.IH[OF r this] show ?thesis .
    qed
  next
    case False
    with Cons.prems(1) obtain cs1 where
      r: "optimize_heights rs u k cs = Inr cs1" and e: "cs' = c # cs1"
      by (auto split: sum.splits)
    show ?thesis
    proof (cases "c' = c")
      case True then show ?thesis using False by simp
    next
      case False
      with Cons.prems(2) e have "c' \<in> set cs1" by auto
      from Cons.IH[OF r this] show ?thesis .
    qed
  qed
qed

lemma py_index_mem: "py_index rs i = Inr r \<Longrightarrow> r \<in> set rs"
  by (auto simp: py_index_def split: if_splits)

lemma lookup_items_mem:
  "lookup_items rs its = Inr ps \<Longrightarrow> (r, x) \<in> set ps \<Longrightarrow> r \<in> set rs"
proof (induction its arbitrary: ps)
  case Nil then show ?case by simp
next
  case (Cons it its)
  obtain i y where it: "it = (i, y)" by (cases it)
  from Cons.prems(1) it obtain r0 ps0 where
    a: "py_index rs i = Inr r0" and b: "lookup_items rs its = Inr ps0" and c: "ps = (r0, y) # ps0"
    by (auto split: sum.splits)
  show ?case
  proof (cases "(r, x) = (r0, y)")
    case True then show ?thesis using a py_index_mem by auto
  next
    case False
    with Cons.prems(2) c have "(r, x) \<in> set ps0" by auto
    from Cons.IH[OF b this] show ?thesis .
  qed
qed

lemma lookup_items_Nil: "lookup_items rs its = Inr [] \<longleftrightarrow> its = []"
  by (cases its) (auto split: sum.splits)



lemma has_rectangle_clashes_jittered:
  assumes "get_minimum_height rs c = Inr m" "c_height c = m + j * m" "0 \<le> j"
      and "\<forall>r \<in> set rs. \<forall>r' \<in> set rs. r_height r + r_height r' \<le> fl (r_height r + r_height r')"
  shows "has_rectangle_clashes rs c = Inr False"
proof -
  from assms(1) obtain bs ts where
    b: "lookup_items rs (bottom_rectangles c) = Inr bs" and
    t: "lookup_items rs (top_rectangles c) = Inr ts" and m: "m = minimum_height bs ts"
    by (auto simp: get_minimum_height_def split: sum.splits)
  have "\<forall>(b, bx) \<in> set bs. \<forall>(t, tx) \<in> set ts.
          r_height b + r_height t \<le> fl (r_height b + r_height t)"
    using lookup_items_mem[OF b] lookup_items_mem[OF t] assms(4) by blast
  with assms(3) have "\<not> has_clash (c_height c) bs ts"
    unfolding assms(2) m by (rule no_clash_at_jittered_minimum)
  then show ?thesis using b t by (simp add: has_rectangle_clashes_def)
qed

lemma clash_penalty_loop_none:
  "\<forall>c \<in> set cs. has_rectangle_clashes rs c = Inr False \<Longrightarrow> clash_penalty_loop rs cs p = Inr p"
  by (induction cs arbitrary: p) auto

lemma pack_rectangles_heights:
  assumes "pack_rectangles opt u ind = Inr (cs, n)" "c \<in> set cs"
  shows "(bottom_rectangles c = [] \<and> top_rectangles c = []) \<or>
     (\<exists>m j. get_minimum_height (rectangles opt) c = Inr m
           \<and> c_height c = m + uniform 0 0.02 (u j) * m)"
proof -
  from assms(1) obtain cs0 where
    "optimize_heights (rectangles opt) u 0 cs0 = Inr cs"
    by (auto simp: pack_rectangles_def split: sum.splits prod.splits)
  from optimize_heights_result[OF this assms(2)] show ?thesis .
qed

lemma scenario_C_pack:
  "pack_rectangles scenario_C_optimizer (\<lambda>k. 1 / 2) scenario_C_individual
     = Inr ([scenario_C_container], 2)"
  by (simp add: pack_rectangles_def make_containers_def py_index_def
      place_in_container_def find_bottom_position_def find_top_position_def
      can_place_at_bottom_def can_place_at_top_def get_bottom_height_def get_top_height_def
      find_position_def occupied_ranges_def get_minimum_height_def minimum_height_def
      overlap_height_def x_overlap_def uniform_def scenario_C_optimizer_def
      scenario_C_individual_def scenario_C_container_def fl_6)

text \<open>
  Where no sum of two rectangle heights is rounded down, every container returned by
  pack_rectangles is free of clashes for jitter draws that are not negative, and the
  clash penalty computed from these containers is 0. This covers heights whose sums
  are doubles themselves, such as the integer heights of scenario C.
\<close>

lemma pack_rectangles_no_clash_unless_rounded_down:
  assumes "pack_rectangles opt u ind = Inr (cs, n)" and "\<forall>k. 0 \<le> u k"
      and "\<forall>r \<in> set (rectangles opt). \<forall>r' \<in> set (rectangles opt).
             r_height r + r_height r' \<le> fl (r_height r + r_height r')"
  shows "(\<forall>c \<in> set cs. has_rectangle_clashes (rectangles opt) c = Inr False)
       \<and> clash_penalty_loop (rectangles opt) cs 0 = Inr 0"
proof -
  have a: "has_rectangle_clashes (rectangles opt) c = Inr False" if c: "c \<in> set cs" for c
    using pack_rectangles_heights[OF assms(1) c]
  proof
    assume "bottom_rectangles c = [] \<and> top_rectangles c = []"
    then show ?thesis by (simp add: has_rectangle_clashes_def)
  next
    assume "\<exists>m j. get_minimum_height (rectangles opt) c = Inr m
           \<and> c_height c = m + uniform 0 0.02 (u j) * m"
    then obtain m j where m: "get_minimum_height (rectangles opt) c = Inr m"
      and h: "c_height c = m + uniform 0 0.02 (u j) * m" by blast
    have "0 \<le> uniform 0 0.02 (u j)" using assms(2) by (simp add: uniform_def)
    with m h show ?thesis using assms(3) by (rule has_rectangle_clashes_jittered)
  qed
  then have "\<forall>c \<in> set cs. has_rectangle_clashes (rectangles opt) c = Inr False" by blast
  then show ?thesis using clash_penalty_loop_none by blast
qed

lemma fl_tenths:
  "fl (28823037615171173 / 36028797018963968) = 7205759403792793 / 9007199254740992"
  using fl_eq[of "-1" "28823037615171173 / 36028797018963968"]
  by (simp add: round_even_def)

lemma fl_tenths_difference:
  "fl (900719925474099 / 9007199254740992) = 900719925474099 / 9007199254740992"
  using fl_eq[of "-4" "900719925474099 / 9007199254740992"]
  by simp

text \<open>
  C2. Every container returned by pack_rectangles is to be free of clashes, and the
  clash penalty 0. For the two rectangles of width 5 with the heights \<^verbatim>\<open>0.1\<close> and
  \<^verbatim>\<open>0.7\<close> and the jitter draw \<^verbatim>\<open>random() = 0.0\<close>, pack_rectangles puts the first on
  the bottom edge and the second on the top edge of the one container and sets its
  height to get_minimum_height, the rounded sum \<^verbatim>\<open>0.1 + 0.7 = 0.7999999999999999\<close>.
  This is less than the two heights together: the top rectangle starts at
  \<open>height - 0.7\<close> (a difference the float subtraction yields exactly), below the end
  \<^verbatim>\<open>0.1\<close> of the bottom rectangle. _has_rectangle_clashes is true on the returned
  container and the clash penalty is 10000.
\<close>

theorem pack_rectangles_returns_clash:
  "\<exists>c. pack_rectangles tenths_optimizer (\<lambda>k. 0) tenths_individual = Inr ([c], 2)
       \<and> bottom_rectangles c = [(0, 0)] \<and> top_rectangles c = [(1, 0)]
       \<and> get_minimum_height (rectangles tenths_optimizer) c = Inr (c_height c)
       \<and> c_height c = 7205759403792793 / 2 ^ 53
       \<and> c_height c < 3602879701896397 / 2 ^ 55 + 3152519739159347 / 2 ^ 52
       \<and> fl (c_height c - 3152519739159347 / 2 ^ 52) = c_height c - 3152519739159347 / 2 ^ 52
       \<and> has_rectangle_clashes (rectangles tenths_optimizer) c = Inr True
       \<and> clash_penalty_loop (rectangles tenths_optimizer) [c] 0 = Inr 10000"
  by (simp add: pack_rectangles_def make_containers_def py_index_def
      place_in_container_def find_bottom_position_def find_top_position_def
      can_place_at_bottom_def can_place_at_top_def get_bottom_height_def get_top_height_def
      find_position_def occupied_ranges_def get_minimum_height_def minimum_height_def
      overlap_height_def x_overlap_def uniform_def has_rectangle_clashes_def has_clash_def
      clash_pair_def tenths_optimizer_def tenths_individual_def fl_tenths fl_tenths_difference)



section \<open>Monotonicity of get_minimum_height\<close>

lemma heights_raised_Nil [simp]: "heights_raised [] ps' \<longleftrightarrow> ps' = []" "heights_raised ps [] \<longleftrightarrow> ps = []"
  by (simp_all add: heights_raised_def)

lemma heights_raised_Cons:
  "heights_raised ((r, x) # ps) qs \<longleftrightarrow>
     (\<exists>r' ps'. qs = (r', x) # ps' \<and> r_width r' = r_width r \<and> r_height r \<le> r_height r' \<and> heights_raised ps ps')"
  by (auto simp: heights_raised_def list_all2_Cons1)

lemma heights_raised_append:
  "heights_raised bs bs' \<Longrightarrow> heights_raised ts ts' \<Longrightarrow> heights_raised (bs @ ts) (bs' @ ts')"
  by (simp add: heights_raised_def list_all2_appendI)

lemma fold_max_height_mono:
  "heights_raised ps ps' \<Longrightarrow> a \<le> a' \<Longrightarrow>
     fold (\<lambda>(r', x') m. max m (r_height r')) ps (a::real)
       \<le> fold (\<lambda>(r', x') m. max m (r_height r')) ps' a'"
proof (induction ps arbitrary: ps' a a')
  case Nil then show ?case by simp
next
  case (Cons p ps)
  obtain r x where p: "p = (r, x)" by (cases p)
  from Cons.prems(1) p obtain r' qs where
    q: "ps' = (r', x) # qs" "r_height r \<le> r_height r'" "heights_raised ps qs"
    by (auto simp: heights_raised_Cons)
  have "max a (r_height r) \<le> max a' (r_height r')" using Cons.prems(2) q(2) by linarith
  from Cons.IH[OF q(3) this] show ?case using p q(1) by simp
qed

lemma max_height_mono: "heights_raised ps ps' \<Longrightarrow> max_height ps \<le> max_height ps'"
proof (cases ps)
  case Nil then show "heights_raised ps ps' \<Longrightarrow> ?thesis" by simp
next
  case (Cons p qs)
  assume h: "heights_raised ps ps'"
  obtain r x where p: "p = (r, x)" by (cases p)
  from h Cons p obtain r' qs' where
    q: "ps' = (r', x) # qs'" "r_height r \<le> r_height r'" "heights_raised qs qs'"
    by (auto simp: heights_raised_Cons)
  from fold_max_height_mono[OF q(3) q(2)] show ?thesis using Cons p q(1) by simp
qed

lemma inner_mono:
  assumes "heights_raised ts ts'" "a \<le> a'" "r_width b' = r_width b" "r_height b \<le> r_height b'"
  shows "fold (\<lambda>(t, tx) acc'. if x_overlap b bx t tx then max acc' (fl (r_height b + r_height t)) else acc') ts (a::real)
       \<le> fold (\<lambda>(t, tx) acc'. if x_overlap b' bx t tx then max acc' (fl (r_height b' + r_height t)) else acc') ts' a'"
  using assms(1,2)
proof (induction ts arbitrary: ts' a a')
  case Nil then show ?case by simp
next
  case (Cons p ts)
  obtain t tx where p: "p = (t, tx)" by (cases p)
  from Cons.prems(1) p obtain t' qs where
    q: "ts' = (t', tx) # qs" "r_width t' = r_width t" "r_height t \<le> r_height t'" "heights_raised ts qs"
    by (auto simp: heights_raised_Cons)
  have xo: "x_overlap b' bx t' tx = x_overlap b bx t tx"
    using assms(3) q(2) by (simp add: x_overlap_def)
  have "r_height b + r_height t \<le> r_height b' + r_height t'" using q(3) assms(4) by linarith
  then have "fl (r_height b + r_height t) \<le> fl (r_height b' + r_height t')" by (rule fl_mono)
  then have "(if x_overlap b bx t tx then max a (fl (r_height b + r_height t)) else a)
      \<le> (if x_overlap b' bx t' tx then max a' (fl (r_height b' + r_height t')) else a')"
    using Cons.prems(2) xo by auto
  from Cons.IH[OF q(4) this] show ?case using p q(1) by simp
qed

lemma overlap_from_mono:
  "heights_raised bs bs' \<Longrightarrow> heights_raised ts ts' \<Longrightarrow> a \<le> a' \<Longrightarrow>
     overlap_from bs ts a \<le> overlap_from bs' ts' a'"
proof (induction bs arbitrary: bs' a a')
  case Nil then show ?case by (simp add: overlap_from_simps)
next
  case (Cons p bs)
  obtain b bx where p: "p = (b, bx)" by (cases p)
  from Cons.prems(1) p obtain b' qs where
    q: "bs' = (b', bx) # qs" "r_width b' = r_width b" "r_height b \<le> r_height b'" "heights_raised bs qs"
    by (auto simp: heights_raised_Cons)
  note i = inner_mono[OF Cons.prems(2,3) q(2,3), of bx]
  from Cons.IH[OF q(4) Cons.prems(2) i] show ?case using p q(1) by (simp add: overlap_from_simps)
qed

lemma max_height_le:
  assumes "ps \<noteq> []" "\<forall>(r, x) \<in> set ps. r_height r \<le> B"
  shows "max_height ps \<le> B"
proof -
  have f: "fold (\<lambda>(r', x') m. max m (r_height r')) qs a \<le> B"
    if "\<forall>(r, x) \<in> set qs. r_height r \<le> B" "a \<le> B" for qs a
    using that by (induction qs arbitrary: a) auto
  from assms(1) obtain r x qs where ps: "ps = (r, x) # qs" by (cases ps) auto
  show ?thesis using assms(2) f[of qs "r_height r"] unfolding ps by simp
qed

lemma max_height_append_upper:
  assumes "bs \<noteq> []" "ts \<noteq> []"
  shows "max (max_height bs) (max_height ts) \<le> max_height (bs @ ts)"
proof -
  have "max_height bs \<le> max_height (bs @ ts)"
    using assms(1) by (rule max_height_le) (auto intro: max_height_mem)
  moreover have "max_height ts \<le> max_height (bs @ ts)"
    using assms(2) by (rule max_height_le) (auto intro: max_height_mem)
  ultimately show ?thesis by simp
qed

lemma minimum_height_mono:
  assumes b: "heights_raised bs bs'" and t: "heights_raised ts ts'"
  shows "minimum_height bs ts \<le> minimum_height bs' ts'"
proof (cases "bs = [] \<or> ts = []")
  case True
  then have "bs' = [] \<or> ts' = []" using b t by auto
  then show ?thesis using True max_height_mono[OF b] max_height_mono[OF t]
    by (simp add: minimum_height_def)
next
  case False
  then have ne: "bs \<noteq> []" "ts \<noteq> []" by simp_all
  have ne': "bs' \<noteq> []" "ts' \<noteq> []" using b t ne by auto
  let ?m = "overlap_height bs ts" and ?m' = "overlap_height bs' ts'"
  let ?A = "max (max_height bs) (max_height ts)" and ?A' = "max (max_height bs') (max_height ts')"
  let ?T = "max_height (bs @ ts)" and ?T' = "max_height (bs' @ ts')"
  have m: "?m \<le> ?m'" using overlap_from_mono[OF b t, of 0 0] by (simp add: overlap_height_from)
  have m0: "0 \<le> ?m" using overlap_from_ge_acc[of 0 bs ts] by (simp add: overlap_height_from)
  have T: "?T \<le> ?T'" using heights_raised_append[OF b t] by (rule max_height_mono)
  have A: "?A \<le> ?A'" using max_height_mono[OF b] max_height_mono[OF t] by linarith
  have AT: "?A \<le> ?T" using ne by (rule max_height_append_upper)
  have "max (if ?m = 0 then ?A else ?m) ?T \<le> max (if ?m' = 0 then ?A' else ?m') ?T'"
    using m m0 T A AT by auto
  then show ?thesis using ne ne' by (simp add: minimum_height_def Let_def)
qed

lemma minimum_height_ge_member:
  assumes "(r, x) \<in> set bs \<or> (r, x) \<in> set ts"
  shows "r_height r \<le> minimum_height bs ts"
proof (cases "bs = [] \<or> ts = []")
  case True
  then show ?thesis
  proof
    assume "bs = []" then show ?thesis using assms max_height_mem[of r x ts]
      by (simp add: minimum_height_def)
  next
    assume "ts = []" then show ?thesis using assms max_height_mem[of r x bs]
      by (simp add: minimum_height_def)
  qed
next
  case False
  have "(r, x) \<in> set (bs @ ts)" using assms by auto
  then have "r_height r \<le> max_height (bs @ ts)" by (rule max_height_mem)
  then show ?thesis using False by (simp add: minimum_height_def Let_def max.coboundedI2)
qed

lemma py_index_raised:
  assumes "table_raised rs rs'" "py_index rs i = Inr r"
  shows "\<exists>r'. py_index rs' i = Inr r' \<and> r_width r' = r_width r \<and> r_height r \<le> r_height r'"
  using assms by (auto simp: table_raised_def py_index_def split: if_splits)

lemma lookup_items_raised:
  "table_raised rs rs' \<Longrightarrow> lookup_items rs its = Inr ps \<Longrightarrow>
     \<exists>ps'. lookup_items rs' its = Inr ps' \<and> heights_raised ps ps'"
proof (induction its arbitrary: ps)
  case Nil then show ?case by simp
next
  case (Cons it its)
  obtain i y where it: "it = (i, y)" by (cases it)
  from Cons.prems(2) it obtain r0 ps0 where
    a: "py_index rs i = Inr r0" and b: "lookup_items rs its = Inr ps0" and c: "ps = (r0, y) # ps0"
    by (auto split: sum.splits)
  from py_index_raised[OF Cons.prems(1) a] obtain r' where
    r': "py_index rs' i = Inr r'" "r_width r' = r_width r0" "r_height r0 \<le> r_height r'" by blast
  from Cons.IH[OF Cons.prems(1) b] obtain ps' where
    ps': "lookup_items rs' its = Inr ps'" "heights_raised ps0 ps'" by blast
  show ?case using it c r' ps' by (simp add: heights_raised_Cons)
qed

lemma lookup_items_item:
  "lookup_items rs its = Inr ps \<Longrightarrow> (i, x) \<in> set its \<Longrightarrow>
     \<exists>r. py_index rs i = Inr r \<and> (r, x) \<in> set ps"
proof (induction its arbitrary: ps)
  case Nil then show ?case by simp
next
  case (Cons it its)
  obtain i0 y where it: "it = (i0, y)" by (cases it)
  from Cons.prems(1) it obtain r0 ps0 where
    a: "py_index rs i0 = Inr r0" and b: "lookup_items rs its = Inr ps0" and c: "ps = (r0, y) # ps0"
    by (auto split: sum.splits)
  show ?case
  proof (cases "(i, x) = it")
    case True then show ?thesis using it a c by auto
  next
    case False
    with Cons.prems(2) have "(i, x) \<in> set its" by auto
    from Cons.IH[OF b this] show ?thesis using c by auto
  qed
qed

text \<open>
  C7. For a container that holds an item, raising heights in the rectangle table
  (same length, same widths, the container and its placements unchanged) does not
  lower get_minimum_height, and the result is at least the height of every occupant.
\<close>

theorem get_minimum_height_monotone:
  assumes "bottom_rectangles c \<noteq> [] \<or> top_rectangles c \<noteq> []"
      and "length rs' = length rs"
      and "\<forall>i < length rs. r_width (rs' ! i) = r_width (rs ! i) \<and> r_height (rs ! i) \<le> r_height (rs' ! i)"
      and "get_minimum_height rs c = Inr m"
  shows "(\<exists>m'. get_minimum_height rs' c = Inr m' \<and> m \<le> m')
       \<and> (\<forall>(i, x) \<in> set (bottom_rectangles c @ top_rectangles c).
             \<exists>r. py_index rs i = Inr r \<and> r_height r \<le> m)"
proof -
  have tr: "table_raised rs rs'" using assms(2,3) by (simp add: table_raised_def)
  from assms(4) obtain bs ts where
    b: "lookup_items rs (bottom_rectangles c) = Inr bs" and
    t: "lookup_items rs (top_rectangles c) = Inr ts" and m: "m = minimum_height bs ts"
    by (auto simp: get_minimum_height_def split: sum.splits)
  from lookup_items_raised[OF tr b] obtain bs' where
    b': "lookup_items rs' (bottom_rectangles c) = Inr bs'" "heights_raised bs bs'" by blast
  from lookup_items_raised[OF tr t] obtain ts' where
    t': "lookup_items rs' (top_rectangles c) = Inr ts'" "heights_raised ts ts'" by blast
  have 1: "\<exists>m'. get_minimum_height rs' c = Inr m' \<and> m \<le> m'"
    using b'(1) t'(1) minimum_height_mono[OF b'(2) t'(2)] m by (simp add: get_minimum_height_def)
  have 2: "\<exists>r. py_index rs i = Inr r \<and> r_height r \<le> m"
    if "(i, x) \<in> set (bottom_rectangles c @ top_rectangles c)" for i x
  proof -
    from that have "(i, x) \<in> set (bottom_rectangles c) \<or> (i, x) \<in> set (top_rectangles c)" by simp
    then obtain r where r: "py_index rs i = Inr r" "(r, x) \<in> set bs \<or> (r, x) \<in> set ts"
      using lookup_items_item[OF b] lookup_items_item[OF t] by blast
    from minimum_height_ge_member[OF r(2)] r(1) m show ?thesis by blast
  qed
  show ?thesis using 1 2 by blast
qed

theorem get_minimum_height_monotone_witness:
  "(\<exists>m'. get_minimum_height raised_rectangles scenario_C_container = Inr m' \<and> 6 \<le> m')
   \<and> (\<exists>r. py_index (rectangles scenario_C_optimizer) 0 = Inr r \<and> r_height r \<le> 6)
   \<and> (\<exists>r. py_index (rectangles scenario_C_optimizer) 1 = Inr r \<and> r_height r \<le> 6)"
proof -
  have i: "bottom_rectangles scenario_C_container \<noteq> [] \<or> top_rectangles scenario_C_container \<noteq> []"
    by (simp add: scenario_C_container_def)
  have l: "length raised_rectangles = length (rectangles scenario_C_optimizer)"
    by (simp add: raised_rectangles_def scenario_C_optimizer_def)
  have t: "\<forall>i < length (rectangles scenario_C_optimizer).
             r_width (raised_rectangles ! i) = r_width (rectangles scenario_C_optimizer ! i)
           \<and> r_height (rectangles scenario_C_optimizer ! i) \<le> r_height (raised_rectangles ! i)"
    by (simp add: raised_rectangles_def scenario_C_optimizer_def less_Suc_eq)
  have m: "get_minimum_height (rectangles scenario_C_optimizer) scenario_C_container = Inr 6"
    by (simp add: get_minimum_height_def minimum_height_def overlap_height_def x_overlap_def
        py_index_def scenario_C_optimizer_def scenario_C_container_def fl_6)
  from get_minimum_height_monotone [OF i l t m] show ?thesis
    by (simp add: scenario_C_container_def)
qed

section \<open>pack_rectangles returns\<close>

text \<open>An index is put into a container only after \<^verbatim>\<open>self.rectangles[rect_idx]\<close> was
  read, so the later reads of the container's items succeed: when every index of
  \<open>rectangle_order\<close> is within \<open>-N \<dots> N - 1\<close>, pack_rectangles returns.\<close>

lemma lookup_items_append:
  "lookup_items rs (its @ [(i, x)]) =
     (case lookup_items rs its of
        Inl e \<Rightarrow> Inl e
      | Inr ps \<Rightarrow> (case py_index rs i of Inl e \<Rightarrow> Inl e | Inr r \<Rightarrow> Inr (ps @ [(r, x)])))"
  by (induction its) (auto split: sum.splits)

lemma can_place_returns:
  assumes "items_ok rs c"
  shows "(\<exists>b. can_place_at_bottom rs c rect = Inr b) \<and> (\<exists>b. can_place_at_top rs c rect = Inr b)"
  using assms
  by (auto simp: items_ok_def can_place_at_bottom_def can_place_at_top_def
      get_bottom_height_def get_top_height_def)

lemma find_bottom_position_returns:
  assumes "items_ok rs c"
  shows "\<exists>p. find_bottom_position rs c rect = Inr p"
proof -
  from assms obtain bs ts where l:
    "lookup_items rs (bottom_rectangles c) = Inr bs" "lookup_items rs (top_rectangles c) = Inr ts"
    by (auto simp: items_ok_def)
  from can_place_returns [OF assms] obtain b where "can_place_at_bottom rs c rect = Inr b"
    by blast
  then show ?thesis using l by (cases b) (simp_all add: find_bottom_position_def)
qed

lemma find_top_position_returns:
  assumes "items_ok rs c"
  shows "\<exists>p. find_top_position rs c rect = Inr p"
proof -
  from assms obtain bs ts where l:
    "lookup_items rs (bottom_rectangles c) = Inr bs" "lookup_items rs (top_rectangles c) = Inr ts"
    by (auto simp: items_ok_def)
  from can_place_returns [OF assms] obtain b where "can_place_at_top rs c rect = Inr b"
    by blast
  then show ?thesis using l by (cases b) (simp_all add: find_top_position_def)
qed

lemma place_in_container_returns:
  assumes "items_ok rs c"
  shows "\<exists>r. place_in_container rs c rect idx = Inr r"
proof -
  from find_bottom_position_returns [OF assms] obtain p where
    p: "find_bottom_position rs c rect = Inr p" by blast
  from find_top_position_returns [OF assms] obtain q where
    q: "find_top_position rs c rect = Inr q" by blast
  show ?thesis using p q by (cases p; cases q) (simp_all add: place_in_container_def)
qed

lemma place_in_container_ok:
  assumes "items_ok rs c" "py_index rs idx = Inr rect"
      and "place_in_container rs c rect idx = Inr (Some c')"
  shows "items_ok rs c'"
proof -
  from find_bottom_position_returns [OF assms(1)] obtain p where
    p: "find_bottom_position rs c rect = Inr p" by blast
  from find_top_position_returns [OF assms(1)] obtain q where
    q: "find_top_position rs c rect = Inr q" by blast
  from assms(3) p q have
    "\<exists>x. (bottom_rectangles c' = bottom_rectangles c @ [(idx, x)]
            \<and> top_rectangles c' = top_rectangles c)
       \<or> (top_rectangles c' = top_rectangles c @ [(idx, x)]
            \<and> bottom_rectangles c' = bottom_rectangles c)"
    by (cases p; cases q) (auto simp: place_in_container_def split: if_splits)
  then show ?thesis using assms(1,2) by (auto simp: items_ok_def lookup_items_append)
qed

lemma place_rect_returns:
  assumes "\<forall>c \<in> set cs. items_ok rs c" "py_index rs idx = Inr rect"
  shows "\<exists>cs' p. place_rect rs rect idx cs = Inr (cs', p) \<and> (\<forall>c \<in> set cs'. items_ok rs c)"
  using assms(1)
proof (induction cs)
  case Nil then show ?case by auto
next
  case (Cons c cs)
  then have ok: "items_ok rs c" and rest: "\<forall>c \<in> set cs. items_ok rs c" by simp_all
  from place_in_container_returns [OF ok] obtain r where
    r: "place_in_container rs c rect idx = Inr r" by blast
  show ?case
  proof (cases r)
    case None
    from Cons.IH [OF rest] obtain cs' p where
      "place_rect rs rect idx cs = Inr (cs', p)" "\<forall>c \<in> set cs'. items_ok rs c" by blast
    then show ?thesis using r None ok by auto
  next
    case (Some c')
    with r have "items_ok rs c'" using place_in_container_ok [OF ok assms(2)] by simp
    then show ?thesis using r Some rest by auto
  qed
qed

lemma place_all_returns:
  assumes "\<forall>c \<in> set cs. items_ok rs c"
      and "\<forall>i \<in> set order. - int (length rs) \<le> i \<and> i < int (length rs)"
  shows "\<exists>cs' n'. place_all rs order cs n = Inr (cs', n') \<and> (\<forall>c \<in> set cs'. items_ok rs c)"
  using assms
proof (induction order arbitrary: cs n)
  case Nil then show ?case by simp
next
  case (Cons i order)
  from Cons.prems(2) have "\<exists>rect. py_index rs i = Inr rect"
    by (auto simp: py_index_def)
  then obtain rect where i: "py_index rs i = Inr rect" by blast
  from place_rect_returns [OF Cons.prems(1) i] obtain cs1 p where
    a: "place_rect rs rect i cs = Inr (cs1, p)" and b: "\<forall>c \<in> set cs1. items_ok rs c" by blast
  from Cons.prems(2) have "\<forall>i \<in> set order. - int (length rs) \<le> i \<and> i < int (length rs)"
    by simp
  from Cons.IH [OF b this, of "if p then n + 1 else n"] show ?case using i a by simp
qed

lemma optimize_heights_returns:
  "\<forall>c \<in> set cs. items_ok rs c \<Longrightarrow> \<exists>cs'. optimize_heights rs u k cs = Inr cs'"
proof (induction cs arbitrary: k)
  case Nil then show ?case by simp
next
  case (Cons c cs)
  then have "items_ok rs c" and rest: "\<forall>c \<in> set cs. items_ok rs c" by simp_all
  then obtain m where m: "get_minimum_height rs c = Inr m"
    by (auto simp: items_ok_def get_minimum_height_def)
  from Cons.IH [OF rest, of "Suc k"] Cons.IH [OF rest, of k] show ?case using m by auto
qed

lemma pack_rectangles_returns:
  assumes "\<forall>i \<in> set (rectangle_order ind).
             - int (length (rectangles opt)) \<le> i \<and> i < int (length (rectangles opt))"
  shows "\<exists>cs n. pack_rectangles opt u ind = Inr (cs, n)"
proof -
  have "\<forall>c \<in> set (make_containers opt ind). items_ok (rectangles opt) c"
    by (auto simp: make_containers_def items_ok_def)
  from place_all_returns [OF this assms, of 0] obtain cs n where
    a: "place_all (rectangles opt) (rectangle_order ind) (make_containers opt ind) 0 = Inr (cs, n)"
    and b: "\<forall>c \<in> set cs. items_ok (rectangles opt) c" by blast
  from optimize_heights_returns [OF b] obtain cs' where
    "optimize_heights (rectangles opt) u 0 cs = Inr cs'" by blast
  then show ?thesis using a by (simp add: pack_rectangles_def)
qed

section \<open>pack_rectangles as a function of the encoding\<close>

lemma pack_rectangles_encoding:
  assumes "num_containers i1 = num_containers i2"
      and "container_heights i1 = container_heights i2"
      and "rectangle_order i1 = rectangle_order i2"
  shows "pack_rectangles opt u i1 = pack_rectangles opt u i2"
proof -
  have "make_containers opt i1 = make_containers opt i2"
    unfolding make_containers_def assms(1,2) by (rule refl)
  then show ?thesis by (simp add: pack_rectangles_def assms(3))
qed

lemma placement_c_height: "placement (c \<lparr> c_height := h \<rparr>) = placement c"
  by (simp add: placement_def)

lemma optimize_heights_placements:
  "optimize_heights rs u k cs = Inr cs1 \<Longrightarrow>
     \<exists>cs2. optimize_heights rs u' k' cs = Inr cs2 \<and> map placement cs2 = map placement cs1"
proof (induction cs arbitrary: k k' cs1)
  case Nil then show ?case by simp
next
  case (Cons c cs)
  show ?case
  proof (cases "bottom_rectangles c \<noteq> [] \<or> top_rectangles c \<noteq> []")
    case True
    with Cons.prems obtain m cs0 where
      m: "get_minimum_height rs c = Inr m" and
      r: "optimize_heights rs u (Suc k) cs = Inr cs0" and
      e: "cs1 = c \<lparr> c_height := m + uniform 0 0.02 (u k) * m \<rparr> # cs0"
      by (auto split: sum.splits)
    from Cons.IH[OF r, of "Suc k'"] obtain cs2 where
      "optimize_heights rs u' (Suc k') cs = Inr cs2" "map placement cs2 = map placement cs0" by blast
    then show ?thesis using True m e by (auto simp: placement_c_height)
  next
    case False
    with Cons.prems obtain cs0 where
      r: "optimize_heights rs u k cs = Inr cs0" and e: "cs1 = c # cs0"
      by (auto split: sum.splits)
    from Cons.IH[OF r, of k'] obtain cs2 where
      "optimize_heights rs u' k' cs = Inr cs2" "map placement cs2 = map placement cs0" by blast
    then show ?thesis using False e by auto
  qed
qed

lemma pack_rectangles_placements:
  assumes "pack_rectangles opt u ind = Inr (cs1, n)"
  shows "\<exists>cs2. pack_rectangles opt u' ind = Inr (cs2, n) \<and> map placement cs2 = map placement cs1"
proof -
  from assms obtain cs0 where
    p: "place_all (rectangles opt) (rectangle_order ind) (make_containers opt ind) 0 = Inr (cs0, n)"
    and o: "optimize_heights (rectangles opt) u 0 cs0 = Inr cs1"
    by (auto simp: pack_rectangles_def split: sum.splits prod.splits)
  from optimize_heights_placements[OF o, of u' 0] obtain cs2 where
    "optimize_heights (rectangles opt) u' 0 cs0 = Inr cs2" "map placement cs2 = map placement cs1"
    by blast
  then show ?thesis using p by (auto simp: pack_rectangles_def)
qed

lemma place_rect_length:
  "place_rect rs rect idx cs = Inr (cs', p) \<Longrightarrow> length cs' = length cs"
  by (induction cs arbitrary: cs' p) (auto split: sum.splits option.splits prod.splits)

lemma place_all_length:
  "place_all rs order cs n = Inr (cs', n') \<Longrightarrow> length cs' = length cs"
proof (induction order arbitrary: cs n)
  case Nil then show ?case by simp
next
  case (Cons i order)
  from Cons.prems obtain rect cs1 p where
    a: "place_rect rs rect i cs = Inr (cs1, p)"
    and b: "place_all rs order cs1 (if p then n + 1 else n) = Inr (cs', n')"
    by (auto split: sum.splits prod.splits)
  from Cons.IH[OF b] place_rect_length[OF a] show ?case by simp
qed

lemma optimize_heights_length:
  "optimize_heights rs u k cs = Inr cs' \<Longrightarrow> length cs' = length cs"
  by (induction cs arbitrary: k cs') (auto split: sum.splits if_splits)

lemma pack_rectangles_length:
  assumes "pack_rectangles opt u ind = Inr (cs, n)"
  shows "length cs = num_containers ind"
proof -
  from assms obtain cs0 where
    p: "place_all (rectangles opt) (rectangle_order ind) (make_containers opt ind) 0 = Inr (cs0, n)"
    and o: "optimize_heights (rectangles opt) u 0 cs0 = Inr cs"
    by (auto simp: pack_rectangles_def split: sum.splits prod.splits)
  from place_all_length[OF p] optimize_heights_length[OF o] show ?thesis
    by (simp add: make_containers_def)
qed

lemma scenario_B_pack:
  "pack_rectangles scenario_B_optimizer (\<lambda>k. 1 / 2) scenario_B_individual
     = Inr ([\<lparr> c_width = 7, c_height = 10, c_id = 0, bottom_rectangles = [],
               top_rectangles = [] \<rparr>], 0)"
  by (simp add: pack_rectangles_def make_containers_def py_index_def place_in_container_def
      scenario_B_optimizer_def scenario_B_individual_def)

text \<open>
  C10. pack_rectangles reads only the encoding of an individual (container count,
  height budgets, rectangle order). Two runs on the same encoding and the same
  random stream return the same result, error or not; with any other random stream
  (the jitter disabled is the stream of zeros) the run returns the same
  \<open>placed_count\<close> and containers with the same ids, widths, edge assignments and
  x-positions, so only heights can differ.
\<close>

theorem pack_rectangles_deterministic:
  assumes "rectangle_order i1 = rectangle_order i2"
      and "container_heights i1 = container_heights i2"
      and "num_containers i1 = num_containers i2"
  shows "pack_rectangles opt u i1 = pack_rectangles opt u i2
       \<and> (\<forall>cs1 n. pack_rectangles opt u i1 = Inr (cs1, n) \<longrightarrow>
            (\<exists>cs2. pack_rectangles opt u' i2 = Inr (cs2, n)
                  \<and> map placement cs2 = map placement cs1))"
proof -
  have e: "pack_rectangles opt u i1 = pack_rectangles opt u i2"
    using assms(3,2,1) by (rule pack_rectangles_encoding)
  show ?thesis using e pack_rectangles_placements[of opt u i2] by auto
qed

theorem pack_rectangles_deterministic_witness:
  "pack_rectangles scenario_C_optimizer (\<lambda>k. 1 / 2) scenario_C_individual
     = pack_rectangles scenario_C_optimizer (\<lambda>k. 1 / 2) scenario_C_evaluated
   \<and> (\<exists>cs2. pack_rectangles scenario_C_optimizer (\<lambda>k. 0) scenario_C_evaluated = Inr (cs2, 2)
          \<and> map placement cs2 = map placement [scenario_C_container])"
proof -
  have a: "rectangle_order scenario_C_individual = rectangle_order scenario_C_evaluated"
    and b: "container_heights scenario_C_individual = container_heights scenario_C_evaluated"
    and c: "num_containers scenario_C_individual = num_containers scenario_C_evaluated"
    by (simp_all add: scenario_C_evaluated_def)
  from pack_rectangles_deterministic [OF a b c, of scenario_C_optimizer "\<lambda>k. 1 / 2" "\<lambda>k. 0"] scenario_C_pack
  show ?thesis by simp
qed

section \<open>The sentinel of evaluate_fitness\<close>

text \<open>
  C9. When pack_rectangles returns with nothing placed, evaluate_fitness returns
  with fitness \<open>-1000\<close>, no further term is computed (so none can fail), and the
  individual carries the packed containers, one per \<open>num_containers\<close>, and its
  encoding unchanged. When something was placed, a returning evaluate_fitness has
  computed the utilization, compactness and clash terms and its fitness is their
  weighted sum.
\<close>

theorem evaluate_fitness_sentinel:
  assumes "pack_rectangles opt u ind = Inr (cs, placed_count)"
  shows "(placed_count = 0 \<longrightarrow>
           (\<exists>ind'. evaluate_fitness opt u ind = Inr ind'
              \<and> fitness ind' = - 1000
              \<and> containers ind' = cs \<and> length cs = num_containers ind
              \<and> rectangles_placed ind' = 0
              \<and> num_containers ind' = num_containers ind
              \<and> container_heights ind' = container_heights ind
              \<and> rectangle_order ind' = rectangle_order ind))
       \<and> (placed_count \<noteq> 0 \<longrightarrow>
           (\<forall>ind'. evaluate_fitness opt u ind = Inr ind' \<longrightarrow>
              max_containers opt \<noteq> 0
              \<and> (\<exists>avg_util compactness_bonus clash_penalty.
                    avg_utilization (rectangles opt) cs = Inr avg_util
                  \<and> compactness_loop (rectangles opt) cs 0 = Inr compactness_bonus
                  \<and> clash_penalty_loop (rectangles opt) cs 0 = Inr clash_penalty
                  \<and> fitness ind' =
                      combined_fitness
                        (if length (rectangles opt) > 0
                         then real placed_count / real (length (rectangles opt)) else 0)
                        (if placed_count = length (rectangles opt) then 500 else 0)
                        avg_util compactness_bonus
                        (real (num_containers ind) / real_of_int (max_containers opt))
                        (if max_total_height opt > 0
                         then sum_list (map c_height cs) / max_total_height opt else 1)
                        clash_penalty)))"
proof -
  have len: "length cs = num_containers ind" using assms by (rule pack_rectangles_length)
  show ?thesis
    using len
    by (auto simp: evaluate_fitness_def assms Let_def split: sum.splits if_splits)
qed

theorem evaluate_fitness_sentinel_witness:
  "(\<exists>ind'. evaluate_fitness scenario_B_optimizer (\<lambda>k. 1 / 2) scenario_B_individual = Inr ind'
       \<and> fitness ind' = - 1000 \<and> length (containers ind') = 1 \<and> rectangles_placed ind' = 0)
   \<and> (\<exists>ind' avg_util compactness_bonus clash_penalty.
         evaluate_fitness scenario_C_optimizer (\<lambda>k. 1 / 2) scenario_C_individual = Inr ind'
       \<and> avg_utilization (rectangles scenario_C_optimizer) [scenario_C_container] = Inr avg_util
       \<and> compactness_loop (rectangles scenario_C_optimizer) [scenario_C_container] 0
           = Inr compactness_bonus
       \<and> clash_penalty_loop (rectangles scenario_C_optimizer) [scenario_C_container] 0
           = Inr clash_penalty
       \<and> fitness ind' = combined_fitness 1 500 avg_util compactness_bonus 1 (303 / 500) clash_penalty)"
proof -
  have z: "(2::nat) \<noteq> 0" by simp
  have au: "avg_utilization (rectangles scenario_C_optimizer) [scenario_C_container] = Inr (100 / 101)"
    by (simp add: avg_utilization_def utilization_def used_area_def py_index_def area_def
        scenario_C_container_def scenario_C_optimizer_def)
  have cp: "clash_penalty_loop (rectangles scenario_C_optimizer) [scenario_C_container] 0 = Inr 0"
    by (simp add: has_rectangle_clashes_def has_clash_def clash_pair_def x_overlap_def py_index_def
        scenario_C_container_def scenario_C_optimizer_def)
  have cb: "compactness_loop (rectangles scenario_C_optimizer) [scenario_C_container] 0
              = Inr (20000 / 101)"
    by (simp add: get_minimum_height_def minimum_height_def overlap_height_def x_overlap_def
        py_index_def scenario_C_container_def scenario_C_optimizer_def fl_6)
  have mc: "max_containers scenario_C_optimizer \<noteq> 0"
    by (simp add: scenario_C_optimizer_def)
  from au cp cb mc obtain ind' where
    e: "evaluate_fitness scenario_C_optimizer (\<lambda>k. 1 / 2) scenario_C_individual = Inr ind'"
    by (auto simp: evaluate_fitness_def scenario_C_pack Let_def)
  from evaluate_fitness_sentinel [OF scenario_B_pack] have 1:
    "\<exists>ind'. evaluate_fitness scenario_B_optimizer (\<lambda>k. 1 / 2) scenario_B_individual = Inr ind'
       \<and> fitness ind' = - 1000 \<and> length (containers ind') = 1 \<and> rectangles_placed ind' = 0"
    by auto
  from evaluate_fitness_sentinel [OF scenario_C_pack] z e have 2:
    "\<exists>avg_util compactness_bonus clash_penalty.
         avg_utilization (rectangles scenario_C_optimizer) [scenario_C_container] = Inr avg_util
       \<and> compactness_loop (rectangles scenario_C_optimizer) [scenario_C_container] 0
           = Inr compactness_bonus
       \<and> clash_penalty_loop (rectangles scenario_C_optimizer) [scenario_C_container] 0
           = Inr clash_penalty
       \<and> fitness ind' = combined_fitness 1 500 avg_util compactness_bonus 1 (303 / 500) clash_penalty"
    by (simp add: scenario_C_optimizer_def scenario_C_individual_def scenario_C_container_def)
  from 1 2 e show ?thesis by blast
qed

section \<open>Containers filled pair by pair\<close>

text \<open>When every rectangle is as wide as the containers, a container takes one
  rectangle on its bottom edge, a second one on its top edge if the two fit under
  its height, and no third one. Over a table of such pairs, pack_rectangles fills
  the containers one after the other.\<close>

lemma place_in_container_filled:
  assumes "py_index rs i = Inr ri" "py_index rs j = Inr rj"
      and "r_width ri = W" "r_width rj = W" "r_width rect = W" "0 < W"
  shows "place_in_container rs (filled W H k i j) rect idx = Inr None"
proof -
  have b: "find_bottom_position rs (filled W H k i j) rect = Inr None"
    using assms
    by (simp add: find_bottom_position_def can_place_at_bottom_def get_bottom_height_def
        get_top_height_def find_position_def occupied_ranges_def filled_def split: bool.splits)
  have t: "find_top_position rs (filled W H k i j) rect = Inr None"
    using assms
    by (simp add: find_top_position_def can_place_at_top_def get_bottom_height_def
        get_top_height_def find_position_def occupied_ranges_def filled_def split: bool.splits)
  show ?thesis using b t by (simp add: place_in_container_def)
qed

lemma place_in_container_vacant:
  assumes "r_width rect = W" "0 \<le> r_height rect" "r_height rect \<le> H"
  shows "place_in_container rs (vacant W H k) rect idx = Inr (Some (half_filled W H k idx))"
  using assms
  by (simp add: place_in_container_def find_bottom_position_def
      can_place_at_bottom_def get_bottom_height_def get_top_height_def
      find_position_def occupied_ranges_def vacant_def half_filled_def)

lemma place_in_container_half_filled:
  assumes "py_index rs i = Inr ri" "r_width ri = W" "r_width rect = W" "0 < W"
      and "0 \<le> r_height ri" "0 \<le> r_height rect" "r_height rect \<le> H - r_height ri"
  shows "place_in_container rs (half_filled W H k i) rect idx = Inr (Some (filled W H k i idx))"
proof -
  have b: "find_bottom_position rs (half_filled W H k i) rect = Inr None"
    using assms
    by (simp add: find_bottom_position_def can_place_at_bottom_def get_bottom_height_def
        get_top_height_def find_position_def occupied_ranges_def half_filled_def
        split: bool.splits)
  have t: "find_top_position rs (half_filled W H k i) rect = Inr (Some 0)"
    using assms
    by (simp add: find_top_position_def can_place_at_top_def get_bottom_height_def
        get_top_height_def find_position_def occupied_ranges_def half_filled_def
        split: bool.splits)
  show ?thesis using b t assms(3,4) by (simp add: place_in_container_def half_filled_def filled_def)
qed

lemma place_rect_skip:
  assumes "\<forall>c \<in> set fs. place_in_container rs c rect idx = Inr None"
  shows "place_rect rs rect idx (fs @ cs) =
           (case place_rect rs rect idx cs of
              Inl e \<Rightarrow> Inl e
            | Inr (cs', placed) \<Rightarrow> Inr (fs @ cs', placed))"
  using assms by (induction fs) (auto split: sum.splits)

lemma place_all_rejected:
  assumes "\<forall>idx \<in> set order. \<exists>rect. py_index rs idx = Inr rect
             \<and> (\<forall>c \<in> set cs. place_in_container rs c rect idx = Inr None)"
  shows "place_all rs order cs n = Inr (cs, n)"
  using assms
proof (induction order)
  case Nil show ?case by simp
next
  case (Cons idx order)
  from Cons.prems obtain rect where
    r: "py_index rs idx = Inr rect" "\<forall>c \<in> set cs. place_in_container rs c rect idx = Inr None"
    by auto
  have "place_rect rs rect idx (cs @ []) = Inr (cs @ [], False)"
    using r(2) by (simp only: place_rect_skip place_rect.simps sum.case prod.case)
  then have "place_rect rs rect idx cs = Inr (cs, False)" by simp
  then show ?case using r(1) Cons by simp
qed

lemma pairs_fit_index:
  assumes "pairs_fit rs W H K" "n < 2 * K"
  shows "py_index rs (int n) = Inr (rs ! n)" "r_width (rs ! n) = W" "0 \<le> r_height (rs ! n)"
  using assms by (simp_all add: pairs_fit_def py_index_def list_all_length)

lemma pairs_fit_pair:
  assumes "pairs_fit rs W H K" "k < K"
  shows "r_height (rs ! (2 * k + 1)) \<le> H - r_height (rs ! (2 * k))"
  using assms by (simp add: pairs_fit_def list_all_iff)

lemma pair_filled_rejects:
  assumes "pairs_fit rs W H K" "k < K" "n < 2 * K"
  shows "place_in_container rs (pair_filled W H k) (rs ! n) idx = Inr None"
proof -
  have a: "2 * k < 2 * K" "2 * k + 1 < 2 * K" using assms(2) by simp_all
  have W: "0 < W" using assms(1) by (simp add: pairs_fit_def)
  show ?thesis unfolding pair_filled_def
    using pairs_fit_index(1)[OF assms(1) a(1)] pairs_fit_index(1)[OF assms(1) a(2)]
      pairs_fit_index(2)[OF assms(1) a(1)] pairs_fit_index(2)[OF assms(1) a(2)]
      pairs_fit_index(2)[OF assms(1) assms(3)] W
    by (rule place_in_container_filled)
qed

lemma place_pair:
  assumes f: "pairs_fit rs W H K" and j: "j < K"
  shows "place_all rs [int (2 * j), int (2 * j + 1)]
           (map (pair_filled W H) [0..<j] @ vacant W H j # cs) n
         = Inr (map (pair_filled W H) [0..<j] @ pair_filled W H j # cs, n + 2)"
proof -
  define fs where "fs = map (pair_filled W H) [0..<j]"
  define i0 where "i0 = int (2 * j)"
  define i1 where "i1 = int (2 * j + 1)"
  define r0 where "r0 = rs ! (2 * j)"
  define r1 where "r1 = rs ! (2 * j + 1)"
  have a: "2 * j < 2 * K" "2 * j + 1 < 2 * K" using j by simp_all
  have W: "0 < W" using f by (simp add: pairs_fit_def)
  have p0: "py_index rs i0 = Inr r0" "r_width r0 = W" "0 \<le> r_height r0"
    unfolding i0_def r0_def using f a(1) by (rule pairs_fit_index)+
  have p1: "py_index rs i1 = Inr r1" "r_width r1 = W" "0 \<le> r_height r1"
    unfolding i1_def r1_def using f a(2) by (rule pairs_fit_index)+
  have h1: "r_height r1 \<le> H - r_height r0"
    unfolding r0_def r1_def using f j by (rule pairs_fit_pair)
  have h0: "r_height r0 \<le> H" using h1 p1(3) by linarith
  have rej0: "\<forall>c \<in> set fs. place_in_container rs c r0 i0 = Inr None"
    unfolding fs_def r0_def using pair_filled_rejects[OF f _ a(1)] j by auto
  have rej1: "\<forall>c \<in> set fs. place_in_container rs c r1 i1 = Inr None"
    unfolding fs_def r1_def using pair_filled_rejects[OF f _ a(2)] j by auto
  have v: "place_in_container rs (vacant W H j) r0 i0 = Inr (Some (half_filled W H j i0))"
    using p0(2,3) h0 by (rule place_in_container_vacant)
  have h: "place_in_container rs (half_filled W H j i0) r1 i1 = Inr (Some (filled W H j i0 i1))"
    using p0(1,2) p1(2) W p0(3) p1(3) h1 by (rule place_in_container_half_filled)
  have 1: "place_rect rs r0 i0 (fs @ vacant W H j # cs) = Inr (fs @ half_filled W H j i0 # cs, True)"
    using v by (simp add: place_rect_skip[OF rej0])
  have 2: "place_rect rs r1 i1 (fs @ half_filled W H j i0 # cs) = Inr (fs @ filled W H j i0 i1 # cs, True)"
    using h by (simp add: place_rect_skip[OF rej1])
  have "place_all rs [i0, i1] (fs @ vacant W H j # cs) n = Inr (fs @ filled W H j i0 i1 # cs, n + 2)"
    using 1 2 p0(1) p1(1) by simp
  then show ?thesis unfolding fs_def i0_def i1_def pair_filled_def .
qed

lemma place_all_append:
  "place_all rs (xs @ ys) cs n =
     (case place_all rs xs cs n of
        Inl e \<Rightarrow> Inl e
      | Inr (cs', n') \<Rightarrow> place_all rs ys cs' n')"
  by (induction xs arbitrary: cs n) (auto split: sum.splits)

lemma place_all_pairs:
  assumes f: "pairs_fit rs W H K"
  shows "j \<le> K \<Longrightarrow>
     place_all rs (map int [0..<2 * j]) (map (vacant W H) [0..<K]) 0
       = Inr (map (pair_filled W H) [0..<j] @ map (vacant W H) [j..<K], 2 * j)"
proof (induction j)
  case 0 show ?case by simp
next
  case (Suc j)
  then have j: "j < K" by simp
  have o: "map int [0..<2 * Suc j] = map int [0..<2 * j] @ [int (2 * j), int (2 * j + 1)]"
    by simp
  have v: "map (vacant W H) [j..<K] = vacant W H j # map (vacant W H) [Suc j..<K]"
    using j by (simp add: upt_conv_Cons)
  show ?case
    using Suc.IH j place_pair[OF f j, of "map (vacant W H) [Suc j..<K]" "2 * j"]
    by (simp only: o place_all_append v) simp
qed

section \<open>The clash penalty against the other terms\<close>

lemma paired_rectangles_length: "1 \<le> K \<Longrightarrow> length (paired_rectangles K) = 2 * K"
  by (simp add: paired_rectangles_def)

lemma paired_rectangles_nth:
  assumes "2 \<le> n" "n < 2 * K"
  shows "paired_rectangles K ! n = \<lparr> r_width = 5, r_height = 8, r_id = int n \<rparr>"
proof -
  have "2 + (n - 2) < 2 * K" using assms by simp
  then have "[2..<2 * K] ! (n - 2) = 2 + (n - 2)" by (rule nth_upt)
  then have "[2..<2 * K] ! (n - Suc (Suc 0)) = n" using assms(1) by (simp add: numeral_2_eq_2)
  then show ?thesis using assms by (simp add: paired_rectangles_def nth_append)
qed

lemma paired_rectangles_fit:
  assumes "1 \<le> K" "16 \<le> H"
  shows "pairs_fit (paired_rectangles K) 5 H K"
proof -
  have w: "list_all (\<lambda>r. r_width r = 5 \<and> 0 \<le> r_height r) (paired_rectangles K)"
    by (simp add: paired_rectangles_def list_all_iff)
  have p: "r_height (paired_rectangles K ! (2 * k + 1)) \<le> H - r_height (paired_rectangles K ! (2 * k))"
    if "k < K" for k
  proof (cases "k = 0")
    case True
    then show ?thesis using assms(2) by (simp add: paired_rectangles_def)
  next
    case False
    then have "2 \<le> 2 * k" "2 \<le> 2 * k + 1" "2 * k < 2 * K" "2 * k + 1 < 2 * K" using that by simp_all
    then show ?thesis using assms(2) by (simp only: paired_rectangles_nth) simp
  qed
  show ?thesis using w p paired_rectangles_length[OF assms(1)]
    by (simp add: pairs_fit_def list_all_iff)
qed

lemma fl_16: "fl 16 = 16"
  using fl_eq[of 4 16] by simp

lemma fl_paired:
  "fl (28823037615171173 / 2251799813685248) = 7205759403792793 / 562949953421312"
  using fl_eq[of 3 "28823037615171173 / 2251799813685248"]
  by (simp add: round_even_def)

lemma optimize_heights_constant_draw:
  assumes "\<forall>c \<in> set cs. (bottom_rectangles c \<noteq> [] \<or> top_rectangles c \<noteq> [])
             \<and> get_minimum_height rs c = Inr m"
      and "\<forall>i \<ge> k. u i = d"
  shows "optimize_heights rs u k cs
           = Inr (map (\<lambda>c. c \<lparr> c_height := m + uniform 0 0.02 d * m \<rparr>) cs)"
  using assms
proof (induction cs arbitrary: k)
  case Nil show ?case by simp
next
  case (Cons c cs)
  have "\<forall>i \<ge> Suc k. u i = d" using Cons.prems(2) by simp
  with Cons.prems(1) have "optimize_heights rs u (Suc k) cs
           = Inr (map (\<lambda>c. c \<lparr> c_height := m + uniform 0 0.02 d * m \<rparr>) cs)"
    by (intro Cons.IH) simp_all
  then show ?case using Cons.prems by simp
qed

lemma utilization_loop_constant:
  assumes "\<forall>c \<in> set cs. (bottom_rectangles c \<noteq> [] \<or> top_rectangles c \<noteq> [])
             \<and> utilization rs c = Inr v"
  shows "utilization_loop rs cs tot n = Inr (tot + real (length cs) * v, n + length cs)"
  using assms by (induction cs arbitrary: tot n) (simp_all add: algebra_simps)

lemma compactness_loop_constant:
  assumes "\<forall>c \<in> set cs. bottom_rectangles c \<noteq> [] \<and> top_rectangles c \<noteq> []
             \<and> get_minimum_height rs c = Inr m \<and> c_height c = H"
      and "0 < H"
  shows "compactness_loop rs cs b = Inr (b + real (length cs) * (m / H * 200))"
  using assms by (induction cs arbitrary: b) (simp_all add: algebra_simps add_divide_distrib)

lemma sum_list_constant:
  "\<forall>c \<in> set cs. c_height c = H \<Longrightarrow> sum_list (map c_height cs) = real (length cs) * H"
  by (induction cs) (simp_all add: algebra_simps)

lemma pair_filled_index:
  assumes "1 \<le> k" "k < K"
  shows "py_index (paired_rectangles K) (int (2 * k)) = Inr \<lparr> r_width = 5, r_height = 8, r_id = int (2 * k) \<rparr>"
    and "py_index (paired_rectangles K) (int (2 * k + 1)) = Inr \<lparr> r_width = 5, r_height = 8, r_id = int (2 * k + 1) \<rparr>"
proof -
  have K: "1 \<le> K" using assms by simp
  have a: "2 \<le> 2 * k" "2 * k < 2 * K" "2 \<le> 2 * k + 1" "2 * k + 1 < 2 * K" using assms by simp_all
  have i: "py_index (paired_rectangles K) (int n) = Inr (paired_rectangles K ! n)" if "n < 2 * K" for n
    using that paired_rectangles_length[OF K] by (simp add: py_index_def)
  show "py_index (paired_rectangles K) (int (2 * k)) = Inr \<lparr> r_width = 5, r_height = 8, r_id = int (2 * k) \<rparr>"
    using i[OF a(2)] paired_rectangles_nth[OF a(1,2)] by (simp only:)
  show "py_index (paired_rectangles K) (int (2 * k + 1)) = Inr \<lparr> r_width = 5, r_height = 8, r_id = int (2 * k + 1) \<rparr>"
    using i[OF a(4)] paired_rectangles_nth[OF a(3,4)] by (simp only:)
qed

lemma pair_filled_facts:
  assumes "1 \<le> k" "k < K"
  shows "get_minimum_height (paired_rectangles K) (pair_filled 5 H k) = Inr 16"
    and "utilization (paired_rectangles K) (pair_filled 5 (404 / 25) k) = Inr (100 / 101)"
    and "has_rectangle_clashes (paired_rectangles K) (pair_filled 5 (404 / 25) k) = Inr False"
  unfolding pair_filled_def filled_def
  using pair_filled_index[OF assms]
  by (simp_all only: get_minimum_height_def utilization_def used_area_def has_rectangle_clashes_def
      lookup_items.simps container.simps sum.case)
     (simp_all add: minimum_height_def overlap_height_def x_overlap_def fl_16 area_def
      has_clash_def clash_pair_def)

lemma paired_make_containers:
  "make_containers (paired_optimizer K) (paired_individual K) = map (vacant 5 16) [0..<K]"
  by (simp add: make_containers_def paired_optimizer_def paired_individual_def vacant_def)

lemma paired_first_minimum:
  assumes "1 \<le> K"
  shows "get_minimum_height (paired_rectangles K) (pair_filled 5 H 0)
           = Inr (7205759403792793 / 2 ^ 49)"
  by (simp add: get_minimum_height_def minimum_height_def overlap_height_def x_overlap_def
      py_index_def pair_filled_def filled_def paired_rectangles_def fl_paired)

lemma paired_pack:
  assumes K: "1 \<le> K"
  shows "pack_rectangles (paired_optimizer K) first_draw_zero (paired_individual K)
           = Inr (pair_filled 5 (7205759403792793 / 2 ^ 49) 0
                    # map (pair_filled 5 (404 / 25)) [1..<K], 2 * K)"
proof -
  let ?rs = "paired_rectangles K"
  have f: "pairs_fit ?rs 5 16 K" using K by (rule paired_rectangles_fit) simp
  have pa: "place_all ?rs (map int [0..<2 * K]) (map (vacant 5 16) [0..<K]) 0
              = Inr (map (pair_filled 5 16) [0..<K], 2 * K)"
    using place_all_pairs[OF f, of K] by simp
  have u: "[0..<K] = 0 # [1..<K]" using K by (simp add: upt_conv_Cons)
  have r: "optimize_heights ?rs first_draw_zero (Suc 0) (map (pair_filled 5 16) [1..<K])
             = Inr (map (\<lambda>c. c \<lparr> c_height := 16 + uniform 0 0.02 (1 / 2) * 16 \<rparr>)
                        (map (pair_filled 5 16) [1..<K]))"
  proof (rule optimize_heights_constant_draw)
    show "\<forall>c \<in> set (map (pair_filled 5 16) [1..<K]).
            (bottom_rectangles c \<noteq> [] \<or> top_rectangles c \<noteq> [])
            \<and> get_minimum_height ?rs c = Inr 16"
      using pair_filled_facts(1) by (auto simp: pair_filled_def filled_def)
    show "\<forall>i \<ge> Suc 0. first_draw_zero i = 1 / 2" by (simp add: first_draw_zero_def)
  qed
  have h: "optimize_heights ?rs first_draw_zero 0 (map (pair_filled 5 16) [0..<K])
             = Inr (pair_filled 5 (7205759403792793 / 2 ^ 49) 0
                      # map (pair_filled 5 (404 / 25)) [1..<K])"
    unfolding u using r paired_first_minimum[OF K, of 16]
    by (simp add: pair_filled_def filled_def first_draw_zero_def uniform_def)
  show ?thesis
    using pa h
    by (simp add: pack_rectangles_def paired_make_containers)
       (simp add: paired_optimizer_def paired_individual_def)
qed

lemma single_pack:
  assumes K: "2 \<le> K"
  shows "pack_rectangles (paired_optimizer K) first_draw_zero (single_individual K)
           = Inr ([filled 5 16 0 2 3], 2)"
proof -
  let ?rs = "paired_rectangles K"
  let ?B = "16 * real K"
  have K1: "1 \<le> K" using K by simp
  have B: "32 \<le> ?B" using K by simp
  have f: "pairs_fit ?rs 5 16 K" using K1 by (rule paired_rectangles_fit) simp
  have i2: "py_index ?rs 2 = Inr \<lparr> r_width = 5, r_height = 8, r_id = 2 \<rparr>"
    using pair_filled_index(1)[of 1 K] K by simp
  have i3: "py_index ?rs 3 = Inr \<lparr> r_width = 5, r_height = 8, r_id = 3 \<rparr>"
    using pair_filled_index(2)[of 1 K] K by simp
  have o: "map int ([2..<2 * K] @ [0, 1]) = 2 # 3 # map int ([4..<2 * K] @ [0, 1])"
    using K by (simp add: upt_conv_Cons numeral_eq_Suc)
  have p2: "place_in_container ?rs (vacant 5 ?B 0) \<lparr> r_width = 5, r_height = 8, r_id = 2 \<rparr> 2
              = Inr (Some (half_filled 5 ?B 0 2))"
    using B by (intro place_in_container_vacant) simp_all
  have p3: "place_in_container ?rs (half_filled 5 ?B 0 2) \<lparr> r_width = 5, r_height = 8, r_id = 3 \<rparr> 3
              = Inr (Some (filled 5 ?B 0 2 3))"
    using B i2 by (intro place_in_container_half_filled[where ri = "\<lparr> r_width = 5, r_height = 8, r_id = 2 \<rparr>"]) simp_all
  have rest: "place_all ?rs (map int ([4..<2 * K] @ [0, 1])) [filled 5 ?B 0 2 3] n
                = Inr ([filled 5 ?B 0 2 3], n)" for n
  proof (rule place_all_rejected, intro ballI)
    fix idx assume "idx \<in> set (map int ([4..<2 * K] @ [0, 1]))"
    then obtain n where n: "idx = int n" "n < 2 * K" using K by auto
    have "place_in_container ?rs (filled 5 ?B 0 2 3) (?rs ! n) idx = Inr None"
      using i2 i3 pairs_fit_index(2)[OF f n(2)]
      by (intro place_in_container_filled[where ri = "\<lparr> r_width = 5, r_height = 8, r_id = 2 \<rparr>"
            and rj = "\<lparr> r_width = 5, r_height = 8, r_id = 3 \<rparr>"]) simp_all
    then show "\<exists>rect. py_index ?rs idx = Inr rect
                 \<and> (\<forall>c \<in> set [filled 5 ?B 0 2 3]. place_in_container ?rs c rect idx = Inr None)"
      using pairs_fit_index(1)[OF f n(2)] n(1) by simp
  qed
  have pa: "place_all ?rs (map int ([2..<2 * K] @ [0, 1])) [vacant 5 ?B 0] 0
              = Inr ([filled 5 ?B 0 2 3], 2)"
    unfolding o using i2 i3 p2 p3 rest[of "Suc (Suc 0)"] by simp
  have m: "get_minimum_height ?rs (filled 5 ?B 0 2 3) = Inr 16"
    using i2 i3 by (simp add: get_minimum_height_def minimum_height_def overlap_height_def
        x_overlap_def filled_def fl_16)
  have h: "optimize_heights ?rs first_draw_zero 0 [filled 5 ?B 0 2 3] = Inr [filled 5 16 0 2 3]"
    using m by (simp add: first_draw_zero_def uniform_def) (simp add: filled_def)
  have mk: "make_containers (paired_optimizer K) (single_individual K) = [vacant 5 ?B 0]"
    by (simp add: make_containers_def paired_optimizer_def single_individual_def vacant_def)
  show ?thesis
    using pa h
    by (simp add: pack_rectangles_def mk) (simp add: paired_optimizer_def single_individual_def)
qed

lemma paired_first_facts:
  "utilization (paired_rectangles K) (pair_filled 5 (7205759403792793 / 2 ^ 49) 0)
     = Inr (28823037615171173 / 28823037615171172)"
  "has_rectangle_clashes (paired_rectangles K) (pair_filled 5 (7205759403792793 / 2 ^ 49) 0)
     = Inr True"
  by (simp_all add: utilization_def used_area_def area_def has_rectangle_clashes_def
      has_clash_def clash_pair_def x_overlap_def py_index_def pair_filled_def filled_def
      paired_rectangles_def)

lemma paired_rest_facts:
  assumes "c \<in> set (map (pair_filled 5 (404 / 25)) [1..<K])"
  shows "bottom_rectangles c \<noteq> []" "top_rectangles c \<noteq> []" "c_height c = 404 / 25"
    "get_minimum_height (paired_rectangles K) c = Inr 16"
    "utilization (paired_rectangles K) c = Inr (100 / 101)"
    "has_rectangle_clashes (paired_rectangles K) c = Inr False"
proof -
  from assms obtain k where k: "c = pair_filled 5 (404 / 25) k" "1 \<le> k" "k < K" by auto
  show "bottom_rectangles c \<noteq> []" "top_rectangles c \<noteq> []" "c_height c = 404 / 25"
    unfolding k(1) by (simp_all add: pair_filled_def filled_def)
  show "get_minimum_height (paired_rectangles K) c = Inr 16"
    "utilization (paired_rectangles K) c = Inr (100 / 101)"
    "has_rectangle_clashes (paired_rectangles K) c = Inr False"
    unfolding k(1) using k(2,3) by (rule pair_filled_facts)+
qed

lemma paired_evaluation:
  "\<exists>e. evaluate_fitness (paired_optimizer 60) first_draw_zero (paired_individual 60) = Inr e
       \<and> containers e = pair_filled 5 (7205759403792793 / 2 ^ 49) 0
                          # map (pair_filled 5 (404 / 25)) [1..<60]
       \<and> rectangles_placed e = 120
       \<and> 3600 < fitness e"
proof -
  let ?rs = "paired_rectangles 60"
  let ?c = "pair_filled 5 (7205759403792793 / 2 ^ 49) 0"
  let ?cs = "map (pair_filled 5 (404 / 25)) [1..<60]"
  have l: "length ?cs = 59" by simp
  have ul: "utilization_loop ?rs ?cs tot n = Inr (tot + real (length ?cs) * (100 / 101), n + length ?cs)"
    for tot n
    by (rule utilization_loop_constant) (use paired_rest_facts in blast)
  have au: "avg_utilization ?rs (?c # ?cs)
              = Inr ((28823037615171173 / 28823037615171172 + 59 * (100 / 101)) / 60)"
    unfolding avg_utilization_def utilization_loop.simps
    by (simp only: paired_first_facts ul l) (simp add: pair_filled_def filled_def)
  have cl: "clash_penalty_loop ?rs ?cs p = Inr p" for p
    by (rule clash_penalty_loop_none) (use paired_rest_facts in blast)
  have cp: "clash_penalty_loop ?rs (?c # ?cs) 0 = Inr 10000"
    by (simp only: clash_penalty_loop.simps paired_first_facts cl) simp
  have co: "compactness_loop ?rs ?cs b = Inr (b + real (length ?cs) * (16 / (404 / 25) * 200))" for b
    by (rule compactness_loop_constant) (use paired_rest_facts in auto)
  have cb: "compactness_loop ?rs (?c # ?cs) 0 = Inr (200 + 59 * (16 / (404 / 25) * 200))"
    unfolding compactness_loop.simps
    by (simp only: paired_first_minimum[of 60, simplified] co l) (simp add: pair_filled_def filled_def)
  have sm: "sum_list (map c_height (?c # ?cs)) = 7205759403792793 / 2 ^ 49 + 59 * (404 / 25)"
    using sum_list_constant[of ?cs "404 / 25"] paired_rest_facts(3)[of _ 60]
    by (simp add: pair_filled_def filled_def)
  have pk: "pack_rectangles (paired_optimizer 60) first_draw_zero (paired_individual 60)
              = Inr (?c # ?cs, 120)"
    using paired_pack[of 60] by simp
  have rs: "rectangles (paired_optimizer 60) = ?rs" "max_containers (paired_optimizer 60) = 60"
    "max_total_height (paired_optimizer 60) = 960" "num_containers (paired_individual 60) = 60"
    by (simp_all add: paired_optimizer_def paired_individual_def)
  have ln: "length ?rs = 120" using paired_rectangles_length[of 60] by simp
  have tk: "take 60 (?c # ?cs) = ?c # ?cs" by simp
  show ?thesis
    unfolding evaluate_fitness_def pk
    by (simp only: prod.case sum.case Let_def rs ln tk au cp cb sm individual.simps)
       (simp add: combined_fitness_def)
qed

lemma single_facts:
  assumes "2 \<le> K"
  shows "get_minimum_height (paired_rectangles K) (filled 5 H 0 2 3) = Inr 16"
    "utilization (paired_rectangles K) (filled 5 16 0 2 3) = Inr 1"
    "has_rectangle_clashes (paired_rectangles K) (filled 5 16 0 2 3) = Inr False"
proof -
  have i: "py_index (paired_rectangles K) 2 = Inr \<lparr> r_width = 5, r_height = 8, r_id = 2 \<rparr>"
    "py_index (paired_rectangles K) 3 = Inr \<lparr> r_width = 5, r_height = 8, r_id = 3 \<rparr>"
    using pair_filled_index[of 1 K] assms by simp_all
  show "get_minimum_height (paired_rectangles K) (filled 5 H 0 2 3) = Inr 16"
    "utilization (paired_rectangles K) (filled 5 16 0 2 3) = Inr 1"
    "has_rectangle_clashes (paired_rectangles K) (filled 5 16 0 2 3) = Inr False"
    using i
    by (simp_all add: get_minimum_height_def minimum_height_def overlap_height_def x_overlap_def
        fl_16 utilization_def used_area_def area_def has_rectangle_clashes_def has_clash_def
        clash_pair_def filled_def)
qed

lemma single_evaluation:
  "\<exists>e. evaluate_fitness (paired_optimizer 60) first_draw_zero (single_individual 60) = Inr e
       \<and> containers e = [filled 5 16 0 2 3]
       \<and> rectangles_placed e = 2
       \<and> fitness e < 516"
proof -
  let ?rs = "paired_rectangles 60"
  let ?c = "filled 5 16 0 2 3"
  have K: "(2::nat) \<le> 60" by simp
  have ne: "bottom_rectangles ?c \<noteq> []" "top_rectangles ?c \<noteq> []" "c_height ?c = 16"
    by (simp_all add: filled_def)
  have au: "avg_utilization ?rs [?c] = Inr 1"
    using single_facts(2)[OF K] ne by (simp add: avg_utilization_def)
  have cp: "clash_penalty_loop ?rs [?c] 0 = Inr 0"
    using single_facts(3)[OF K] by simp
  have cb: "compactness_loop ?rs [?c] 0 = Inr 200"
    using single_facts(1)[OF K, of 16] ne by simp
  have pk: "pack_rectangles (paired_optimizer 60) first_draw_zero (single_individual 60)
              = Inr ([?c], 2)"
    using single_pack[OF K] .
  have rs: "rectangles (paired_optimizer 60) = ?rs" "max_containers (paired_optimizer 60) = 60"
    "max_total_height (paired_optimizer 60) = 960" "num_containers (single_individual 60) = 1"
    by (simp_all add: paired_optimizer_def single_individual_def)
  have ln: "length ?rs = 120" using paired_rectangles_length[of 60] by simp
  show ?thesis
    unfolding evaluate_fitness_def pk
    by (simp only: prod.case sum.case Let_def rs ln au cp cb individual.simps)
       (simp add: combined_fitness_def ne)
qed

lemma paired_individual_init:
  "Individual_init (paired_rectangles 60) 5 960 60 59 = Inr (paired_individual 60)"
  using paired_rectangles_length[of 60]
  by (simp add: Individual_init_def randint_def paired_individual_def)

lemma single_individual_permutation:
  assumes "1 \<le> K"
  shows "is_permutation (2 * K) (rectangle_order (single_individual K))"
proof -
  have "[0..<2 + (2 * K - 2)] = [0..<2] @ [2..<2 + (2 * K - 2)]"
    by (rule upt_add_eq_append) simp
  moreover have "2 + (2 * K - 2) = 2 * K" using assms by simp
  ultimately have "[0..<2 * K] = [0..<2] @ [2..<2 * K]" by (simp only:)
  then have "mset (map int [0..<2 * K]) = mset (map int ([2..<2 * K] @ [0..<2]))"
    by (simp only: map_append mset_append add.commute)
  moreover have "[0..<2] = [0, Suc 0]" by (simp add: numeral_2_eq_2)
  ultimately show ?thesis by (simp add: is_permutation_def single_individual_def)
qed

text \<open>
  C5. A solution with a clashing container is to have a strictly lower fitness than
  any solution without one. In the instance with 120 rectangles and at most 60
  containers, the individual with 60 containers places every rectangle, two per
  container. Its first container holds the rectangles of height \<^verbatim>\<open>1.6\<close> and \<^verbatim>\<open>11.2\<close>
  at the height \<^verbatim>\<open>1.6 + 11.2 = 12.799999999999999\<close> (jitter draw 0), on which
  _has_rectangle_clashes is true; the clash penalty is 10000. The compactness bonus
  of up to 200 for each of the 60 containers outweighs it: the fitness is above
  3600. The individual with one container places two rectangles without a clash and
  has a fitness below 516.
\<close>

theorem clash_penalty_outweighed:
  "\<exists>e1 e2 c1 cs1 c2.
      evaluate_fitness (paired_optimizer 60) first_draw_zero (paired_individual 60) = Inr e1
    \<and> evaluate_fitness (paired_optimizer 60) first_draw_zero (single_individual 60) = Inr e2
    \<and> containers e1 = c1 # cs1
    \<and> has_rectangle_clashes (rectangles (paired_optimizer 60)) c1 = Inr True
    \<and> clash_penalty_loop (rectangles (paired_optimizer 60)) (containers e1) 0 = Inr 10000
    \<and> containers e2 = [c2]
    \<and> has_rectangle_clashes (rectangles (paired_optimizer 60)) c2 = Inr False
    \<and> fitness e2 < 516 \<and> 3600 < fitness e1"
proof -
  have rs: "rectangles (paired_optimizer 60) = paired_rectangles 60"
    by (simp add: paired_optimizer_def)
  from paired_evaluation obtain e1 where
    e1: "evaluate_fitness (paired_optimizer 60) first_draw_zero (paired_individual 60) = Inr e1"
      "containers e1 = pair_filled 5 (7205759403792793 / 2 ^ 49) 0
                          # map (pair_filled 5 (404 / 25)) [1..<60]"
      "3600 < fitness e1" by blast
  from single_evaluation obtain e2 where
    e2: "evaluate_fitness (paired_optimizer 60) first_draw_zero (single_individual 60) = Inr e2"
      "containers e2 = [filled 5 16 0 2 3]" "fitness e2 < 516" by blast
  have cl: "clash_penalty_loop (paired_rectangles 60) (map (pair_filled 5 (404 / 25)) [1..<60]) p = Inr p" for p
    by (rule clash_penalty_loop_none) (use paired_rest_facts in blast)
  have cp: "clash_penalty_loop (paired_rectangles 60) (containers e1) 0 = Inr 10000"
    unfolding e1(2) by (simp only: clash_penalty_loop.simps paired_first_facts cl) simp
  have K: "(2::nat) \<le> 60" by simp
  show ?thesis
    using e1 e2 cp paired_first_facts(2)[of 60] single_facts(3)[OF K] unfolding rs by blast
qed

section \<open>rectangle_order stays a permutation\<close>

lemma mod_shift_neq:
  assumes "0 < d" "d < (N::nat)"
  shows "(p + d) mod N \<noteq> p mod N"
proof -
  have r: "p mod N < N" using assms by simp
  have e: "(p + d) mod N = (p mod N + d) mod N" by (simp add: mod_add_left_eq)
  show ?thesis
  proof (cases "p mod N + d < N")
    case True
    then show ?thesis using e assms(1) by simp
  next
    case False
    then have "(p mod N + d) mod N = (p mod N + d - N) mod N" by (simp add: le_mod_geq)
    also have "\<dots> = p mod N + d - N"
    proof (rule mod_less)
      show "p mod N + d - N < N" using r assms(2) by linarith
    qed
    finally show ?thesis using e False assms(2) by simp
  qed
qed

lemma shuffle_steps_mset:
  "i < length xs \<Longrightarrow> mset (shuffle_steps g i xs) = mset xs"
proof (induction i arbitrary: xs)
  case 0 then show ?case by simp
next
  case (Suc i)
  let ?j = "g (Suc i) mod (Suc i + 1)"
  have "?j < Suc i + 1" by (rule mod_less_divisor) simp
  then have j: "?j < length xs" using Suc.prems by linarith
  have "mset (xs[Suc i := xs ! ?j, ?j := xs ! Suc i]) = mset xs"
    using j Suc.prems by (simp add: mset_swap)
  moreover have "i < length (xs[Suc i := xs ! ?j, ?j := xs ! Suc i])" using Suc.prems by simp
  ultimately show ?case using Suc.IH by (simp add: Let_def)
qed

lemma shuffle_mset: "mset (shuffle g xs) = mset xs"
  by (cases xs) (simp_all add: shuffle_def shuffle_steps_mset)

lemma slice_assign_shuffle_mset:
  assumes "s \<le> e"
  shows "mset (slice_assign ro s e (shuffle g (slice ro s e))) = mset ro"
proof -
  have "drop (e - s) (drop s ro) = drop e ro" using assms by simp
  moreover have "take (e - s) (drop s ro) @ drop (e - s) (drop s ro) = drop s ro"
    by (rule append_take_drop_id)
  ultimately have "slice ro s e @ drop e ro = drop s ro" by (simp only: slice_def)
  then have "take s ro @ slice ro s e @ drop e ro = ro" by simp
  then have "mset ro = mset (take s ro) + mset (slice ro s e) + mset (drop e ro)"
    by (metis mset_append append.assoc)
  then show ?thesis by (simp add: slice_assign_def shuffle_mset)
qed

lemma ox_fill_invariant:
  assumes "length child = N" "distinct items" "- 1 \<notin> set items"
      and "count (mset child) (- 1) = length (filter (\<lambda>x. x \<notin> set child) items)"
      and "\<forall>j < length (filter (\<lambda>x. x \<notin> set child) items). child ! ((p + j) mod N) = - 1"
  shows "\<exists>child'. ox_fill N items child p = Inr child' \<and> length child' = N
           \<and> mset child' = filter_mset (\<lambda>x. x \<noteq> - 1) (mset child)
                              + mset (filter (\<lambda>x. x \<notin> set child) items)"
  using assms
proof (induction items arbitrary: child p)
  case Nil
  then have "- 1 \<notin> set child" by (simp add: count_eq_zero_iff)
  then have "filter (\<lambda>x. x \<noteq> - 1) child = child" by (simp add: filter_id_conv) auto
  then have "filter_mset (\<lambda>x. x \<noteq> - 1) (mset child) = mset child"
    by (metis mset_filter)
  then show ?case using Nil by simp
next
  case (Cons item items)
  show ?case
  proof (cases "item \<in> set child")
    case True
    have "\<exists>child'. ox_fill N items child p = Inr child' \<and> length child' = N
           \<and> mset child' = filter_mset (\<lambda>x. x \<noteq> - 1) (mset child)
                              + mset (filter (\<lambda>x. x \<notin> set child) items)"
      using Cons.prems True by (intro Cons.IH) simp_all
    then show ?thesis using True by simp
  next
    case False
    let ?m = "length (filter (\<lambda>x. x \<notin> set child) items)"
    let ?q = "p mod N"
    let ?child = "child[?q := item]"
    have item: "item \<noteq> - 1" "item \<notin> set items" using Cons.prems(2,3) by auto
    have cnt: "count (mset child) (- 1) = Suc ?m" using Cons.prems(4) False by simp
    have win: "\<forall>j < Suc ?m. child ! ((p + j) mod N) = - 1" using Cons.prems(5) False by simp
    have "count (mset child) (- 1) \<le> size (mset child)" by (rule count_le_size)
    then have mN: "Suc ?m \<le> N" using cnt Cons.prems(1) by simp
    then have N0: "0 < N" by simp
    have q: "?q < length child" using N0 Cons.prems(1) by simp
    have cq: "child ! ?q = - 1" using win by (metis add_0_right zero_less_Suc)
    have ms: "mset ?child = add_mset item (mset child - {#- 1#})"
      using q cq by (simp add: mset_update)
    have st: "x \<in> set ?child \<longleftrightarrow> x \<in> set child" if "x \<noteq> item" "x \<noteq> - 1" for x
    proof -
      have "x \<in># mset ?child \<longleftrightarrow> x \<in># mset child"
        unfolding ms using that by (simp add: in_diff_count count_greater_zero_iff)
      then show ?thesis by simp
    qed
    have fl: "filter (\<lambda>x. x \<notin> set ?child) items = filter (\<lambda>x. x \<notin> set child) items"
    proof (rule filter_cong [OF refl])
      fix x assume "x \<in> set items"
      then have "x \<noteq> item" "x \<noteq> - 1" using item Cons.prems(3) by auto
      from st [OF this] show "(x \<notin> set ?child) = (x \<notin> set child)" by simp
    qed
    have c1: "count (mset ?child) (- 1) = length (filter (\<lambda>x. x \<notin> set ?child) items)"
      unfolding fl ms using cnt item(1) by simp
    have w1: "\<forall>j < length (filter (\<lambda>x. x \<notin> set ?child) items). ?child ! ((p + 1 + j) mod N) = - 1"
      unfolding fl
    proof (intro allI impI)
      fix j assume j: "j < ?m"
      have "(p + (j + 1)) mod N \<noteq> p mod N" using j mN by (intro mod_shift_neq) simp_all
      then have "?child ! ((p + 1 + j) mod N) = child ! ((p + (j + 1)) mod N)"
        by (simp add: add.commute add.left_commute)
      also have "\<dots> = - 1"
      proof -
        have "j + 1 < Suc ?m" using j by simp
        with win show ?thesis by blast
      qed
      finally show "?child ! ((p + 1 + j) mod N) = - 1" .
    qed
    have "\<exists>child'. ox_fill N items ?child (p + 1) = Inr child' \<and> length child' = N
           \<and> mset child' = filter_mset (\<lambda>x. x \<noteq> - 1) (mset ?child)
                              + mset (filter (\<lambda>x. x \<notin> set ?child) items)"
      using Cons.prems(1,2,3) c1 w1 by (intro Cons.IH) simp_all
    then obtain child' where r: "ox_fill N items ?child (p + 1) = Inr child'" "length child' = N"
      "mset child' = filter_mset (\<lambda>x. x \<noteq> - 1) (mset ?child)
                              + mset (filter (\<lambda>x. x \<notin> set ?child) items)" by blast
    have "filter_mset (\<lambda>x. x \<noteq> - 1) (mset ?child)
            = add_mset item (filter_mset (\<lambda>x. x \<noteq> - 1) (mset child))"
      unfolding ms using item(1) by (simp add: multiset_eq_iff)
    then have "mset child' = filter_mset (\<lambda>x. x \<noteq> - 1) (mset child)
                              + mset (filter (\<lambda>x. x \<notin> set child) (item # items))"
      using r(3) fl False by simp
    then show ?thesis using r(1,2) False q by simp
  qed
qed

lemma is_permutation_length: "is_permutation N xs \<Longrightarrow> length xs = N"
  by (metis is_permutation_def size_mset length_map length_upt diff_zero)

lemma is_permutation_distinct: "is_permutation N xs \<Longrightarrow> distinct xs"
proof -
  assume "is_permutation N xs"
  then have "mset xs = mset (map int [0..<N])" by (simp add: is_permutation_def)
  moreover have "distinct (map int [0..<N])" by (simp add: distinct_map)
  ultimately show ?thesis by (metis mset_eq_imp_distinct_iff)
qed

lemma is_permutation_set: "is_permutation N xs \<Longrightarrow> set xs = int ` {0..<N}"
proof -
  assume "is_permutation N xs"
  then have "set xs = set (map int [0..<N])" unfolding is_permutation_def by (rule mset_eq_setD)
  then show ?thesis by simp
qed

lemma mset_filter_partition:
  "mset (filter P xs) + mset (filter (\<lambda>x. \<not> P x) xs) = mset xs"
  by (induction xs) simp_all

lemma order_crossover_permutation:
  assumes pa: "is_permutation N pa" and pb: "is_permutation N pb"
      and se: "s \<le> e" and eN: "e < N"
  shows "\<exists>c. order_crossover N s e pa pb = Inr c \<and> is_permutation N c"
proof -
  let ?seg = "slice pa s e"
  let ?child = "replicate s (- 1) @ ?seg @ replicate (N - e) (- 1 :: int)"
  let ?items = "drop e pb @ take e pb"
  have la: "length pa = N" and lb: "length pb = N"
    using pa pb by (simp_all add: is_permutation_length)
  have da: "distinct pa" and db: "distinct pb"
    using pa pb by (simp_all add: is_permutation_distinct)
  have sa: "set pa = int ` {0..<N}" and sb: "set pb = int ` {0..<N}"
    using pa pb by (simp_all add: is_permutation_set)
  have child_eq: "slice_assign (replicate N (- 1)) s e ?seg = ?child"
    using se eN by (simp add: slice_assign_def min_def)
  have lseg: "length ?seg = e - s" using la se eN by (simp add: slice_def)
  have dseg: "distinct ?seg" using da by (simp add: slice_def)
  have sseg: "set ?seg \<subseteq> set pa"
    unfolding slice_def by (meson set_take_subset set_drop_subset subset_trans)
  have m1a: "- 1 \<notin> set pa" using sa by auto
  have m1seg: "- 1 \<notin> set ?seg" using sseg m1a by blast
  have sitems: "set ?items = set pb" by (metis set_append Un_commute append_take_drop_id)
  have ditems: "distinct ?items"
    using db by (metis distinct_append append_take_drop_id inf_commute)
  have m1items: "- 1 \<notin> set ?items" using sitems sb by auto
  have litems: "length ?items = N" using lb by simp
  have lchild: "length ?child = N" using lseg se eN by simp
  have setchild: "set ?child - {- 1} = set ?seg" using m1seg by auto
  have fl: "filter (\<lambda>x. x \<notin> set ?child) ?items = filter (\<lambda>x. x \<notin> set ?seg) ?items"
  proof (rule filter_cong [OF refl])
    fix x assume "x \<in> set ?items"
    then have "x \<noteq> - 1" using m1items by auto
    then show "(x \<notin> set ?child) = (x \<notin> set ?seg)" using setchild by auto
  qed
  have inseg: "mset (filter (\<lambda>x. x \<in> set ?seg) ?items) = mset ?seg"
  proof -
    have A: "set (filter (\<lambda>x. x \<in> set ?seg) ?items) = set ?seg"
      using sseg sitems sa sb by auto
    have B: "distinct (filter (\<lambda>x. x \<in> set ?seg) ?items)"
      using ditems by (rule distinct_filter)
    from set_eq_iff_mset_eq_distinct [OF B dseg] A show ?thesis by blast
  qed
  then have "length (filter (\<lambda>x. x \<in> set ?seg) ?items) = e - s"
    using lseg by (metis size_mset)
  moreover have "length (filter (\<lambda>x. x \<in> set ?seg) ?items)
        + length (filter (\<lambda>x. x \<notin> set ?seg) ?items) = length ?items"
    by (rule sum_length_filter_compl)
  ultimately have lrest: "length (filter (\<lambda>x. x \<notin> set ?seg) ?items) = N - (e - s)"
    using litems by simp
  have c0: "count (mset ?seg) (- 1) = 0" using m1seg by (simp add: count_eq_zero_iff)
  have "s + count (mset ?seg) (- 1) + (N - e) = N - (e - s)"
    unfolding c0 using se eN by linarith
  moreover have "count (mset ?child) (- 1) = s + count (mset ?seg) (- 1) + (N - e)" by simp
  ultimately have cnt:
    "count (mset ?child) (- 1) = length (filter (\<lambda>x. x \<notin> set ?child) ?items)"
    unfolding fl lrest by (simp only:)
  have win: "\<forall>j < length (filter (\<lambda>x. x \<notin> set ?child) ?items). ?child ! ((e + j) mod N) = - 1"
    unfolding fl lrest
  proof (intro allI impI)
    fix j assume j: "j < N - (e - s)"
    show "?child ! ((e + j) mod N) = - 1"
    proof (cases "e + j < N")
      case True
      then have "(e + j) mod N = e + j" by simp
      moreover have "?child ! (e + j) = - 1"
      proof -
        have pre: "length (replicate s (- 1 :: int) @ ?seg) = e" using lseg se by simp
        have "?child ! (e + j) = (replicate (N - e) (- 1 :: int)) ! j"
          using pre by (metis append.assoc nth_append_length_plus)
        also have "\<dots> = - 1" using True by simp
        finally show ?thesis .
      qed
      ultimately show ?thesis by simp
    next
      case False
      then have "(e + j) mod N = (e + j - N) mod N" by (simp add: le_mod_geq)
      also have "\<dots> = e + j - N" using j eN se by (intro mod_less) linarith
      finally have "(e + j) mod N = e + j - N" .
      moreover have "e + j - N < s" using j False se eN by linarith
      ultimately show ?thesis by (simp add: nth_append)
    qed
  qed
  from ox_fill_invariant [OF lchild ditems m1items cnt win]
  obtain c where c: "ox_fill N ?items ?child e = Inr c" "length c = N"
    "mset c = filter_mset (\<lambda>x. x \<noteq> - 1) (mset ?child)
                + mset (filter (\<lambda>x. x \<notin> set ?child) ?items)" by blast
  have fm: "filter_mset (\<lambda>x. x \<noteq> - 1) (mset ?child) = mset ?seg"
  proof -
    have "filter (\<lambda>x. x \<noteq> - 1) ?seg = ?seg" using m1seg by (simp add: filter_id_conv) auto
    then have "filter (\<lambda>x. x \<noteq> - 1) ?child = ?seg" by simp
    then show ?thesis by (metis mset_filter)
  qed
  have "mset c = mset ?seg + mset (filter (\<lambda>x. x \<notin> set ?seg) ?items)"
    using c(3) unfolding fm fl .
  also have "\<dots> = mset (filter (\<lambda>x. x \<in> set ?seg) ?items)
                      + mset (filter (\<lambda>x. x \<notin> set ?seg) ?items)"
    by (simp only: inseg)
  also have "\<dots> = mset ?items" by (rule mset_filter_partition)
  also have "\<dots> = mset pb" by (metis mset_append union_commute append_take_drop_id)
  finally have "is_permutation N c" using pb by (simp add: is_permutation_def)
  then show ?thesis using c(1) child_eq by (simp add: order_crossover_def)
qed

lemma randint_bounds: "randint a b d = Inr k \<Longrightarrow> a \<le> k \<and> k \<le> b"
proof -
  assume r: "randint a b d = Inr k"
  then have ab: "a \<le> b" and k: "k = a + int (d mod nat (b - a + 1))"
    by (auto simp: randint_def split: if_splits)
  have "d mod nat (b - a + 1) < nat (b - a + 1)" using ab by (intro mod_less_divisor) simp
  then show ?thesis using k ab by linarith
qed

lemma sample_two_bounds:
  "sample_two n d1 d2 = Inr (i, j) \<Longrightarrow> i < n \<and> j < n \<and> i \<noteq> j"
proof -
  assume r: "sample_two n d1 d2 = Inr (i, j)"
  then have n: "2 \<le> n" and i: "i = d1 mod n"
    and j: "j = (if d2 mod (n - 1) = i then n - 1 else d2 mod (n - 1))"
    by (auto simp: sample_two_def Let_def split: if_splits)
  have a: "d1 mod n < n" using n by simp
  have b: "d2 mod (n - 1) < n - 1" using n by simp
  show ?thesis using i j a b by (auto split: if_splits)
qed

lemma sample_two_returns: "2 \<le> n \<Longrightarrow> \<exists>i j. sample_two n d1 d2 = Inr (i, j)"
  by (simp add: sample_two_def Let_def)

lemma copy_rectangle_order: "copy self d = Inr c \<Longrightarrow> rectangle_order c = rectangle_order self"
  by (auto simp: copy_def split: sum.splits)

lemma initialize_random_permutation:
  "is_permutation N (rectangle_order ind) \<Longrightarrow>
     is_permutation N (rectangle_order (initialize_random ind g))"
  by (simp add: initialize_random_def is_permutation_def shuffle_mset)

lemma Individual_init_permutation:
  "Individual_init rs cw mth mc d = Inr i0 \<Longrightarrow> is_permutation (length rs) (rectangle_order i0)"
  by (auto simp: Individual_init_def is_permutation_def split: sum.splits)

lemma crossover_permutation:
  assumes p1: "is_permutation N (rectangle_order parent1)"
      and p2: "is_permutation N (rectangle_order parent2)"
      and r: "crossover opt parent1 parent2 dr = Inr (c1, c2)"
  shows "is_permutation N (rectangle_order c1) \<and> is_permutation N (rectangle_order c2)"
proof (cases "x_gate dr > crossover_rate opt")
  case True
  with r obtain d1 d2 where "copy parent1 d1 = Inr c1" "copy parent2 d2 = Inr c2"
    by (auto simp: crossover_def split: sum.splits)
  then show ?thesis using p1 p2 by (simp add: copy_rectangle_order)
next
  case False
  have l1: "length (rectangle_order parent1) = N" using p1 by (rule is_permutation_length)
  from r False l1 obtain a b o1 o2 child1 child2 n1 n2 h1 h2 where
    s: "sample_two N (x_cut1 dr) (x_cut2 dr) = Inr (a, b)"
    and o1: "order_crossover N (min a b) (max a b)
               (rectangle_order parent1) (rectangle_order parent2) = Inr o1"
    and o2: "order_crossover N (min a b) (max a b)
               (rectangle_order parent2) (rectangle_order parent1) = Inr o2"
    and c1: "c1 = child1 \<lparr> num_containers := n1, container_heights := h1, rectangle_order := o1 \<rparr>"
    and c2: "c2 = child2 \<lparr> num_containers := n2, container_heights := h2, rectangle_order := o2 \<rparr>"
    by (auto simp: crossover_def Let_def split: sum.splits prod.splits)
  from sample_two_bounds [OF s] have se: "min a b \<le> max a b" and eN: "max a b < N" by auto
  from order_crossover_permutation [OF p1 p2 se eN] o1 have "is_permutation N o1" by auto
  moreover from order_crossover_permutation [OF p2 p1 se eN] o2 have "is_permutation N o2" by auto
  ultimately show ?thesis using c1 c2 by simp
qed

lemma Individual_init_returns: "1 \<le> mc \<Longrightarrow> \<exists>i0. Individual_init rs cw mth mc d = Inr i0"
  by (simp add: Individual_init_def randint_def)

lemma copy_returns: "1 \<le> ind_max_containers self \<Longrightarrow> \<exists>c. copy self d = Inr c"
  by (simp add: copy_def Individual_init_def randint_def)

lemma crossover_returns:
  assumes p1: "is_permutation N (rectangle_order parent1)"
      and p2: "is_permutation N (rectangle_order parent2)"
      and N: "2 \<le> N" and mc: "1 \<le> max_containers opt"
      and m1: "1 \<le> ind_max_containers parent1" and m2: "1 \<le> ind_max_containers parent2"
  shows "\<exists>c1 c2. crossover opt parent1 parent2 dr = Inr (c1, c2)"
proof (cases "x_gate dr > crossover_rate opt")
  case True
  from copy_returns [OF m1] obtain c1 where "copy parent1 (x_copy1 dr) = Inr c1" by blast
  moreover from copy_returns [OF m2] obtain c2 where "copy parent2 (x_copy2 dr) = Inr c2" by blast
  ultimately show ?thesis using True by (simp add: crossover_def)
next
  case False
  have l1: "length (rectangle_order parent1) = N" using p1 by (rule is_permutation_length)
  from Individual_init_returns [OF mc] obtain child1 where
    i1: "Individual_init (rectangles opt) (container_width opt) (max_total_height opt)
           (max_containers opt) (x_child1 dr) = Inr child1" by blast
  from Individual_init_returns [OF mc] obtain child2 where
    i2: "Individual_init (rectangles opt) (container_width opt) (max_total_height opt)
           (max_containers opt) (x_child2 dr) = Inr child2" by blast
  from sample_two_returns [OF N] obtain a b where
    s: "sample_two N (x_cut1 dr) (x_cut2 dr) = Inr (a, b)" by blast
  from sample_two_bounds [OF s] have se: "min a b \<le> max a b" and eN: "max a b < N" by auto
  from order_crossover_permutation [OF p1 p2 se eN] obtain o1 where
    o1: "order_crossover N (min a b) (max a b)
           (rectangle_order parent1) (rectangle_order parent2) = Inr o1" by blast
  from order_crossover_permutation [OF p2 p1 se eN] obtain o2 where
    o2: "order_crossover N (min a b) (max a b)
           (rectangle_order parent2) (rectangle_order parent1) = Inr o2" by blast
  show ?thesis using False l1 i1 i2 s o1 o2 by (simp add: crossover_def Let_def)
qed

lemma mutate_order_permutation:
  assumes "is_permutation N (rectangle_order ind)" "mutate_order ind dr = Inr ind'"
  shows "is_permutation N (rectangle_order ind')"
proof (cases "length (rectangle_order ind) > 1")
  case False
  then show ?thesis using assms by (simp add: mutate_order_def Let_def)
next
  case True
  let ?ro = "rectangle_order ind"
  from assms(2) True obtain i j where
    s: "sample_two (length ?ro) (m_int1 dr) (m_int2 dr) = Inr (i, j)"
    and e: "ind' = ind \<lparr> rectangle_order := ?ro[i := ?ro ! j, j := ?ro ! i] \<rparr>"
    by (auto simp: mutate_order_def Let_def split: sum.splits prod.splits)
  from sample_two_bounds [OF s] have "i < length ?ro" "j < length ?ro" by auto
  then have "mset (?ro[i := ?ro ! j, j := ?ro ! i]) = mset ?ro" by (simp add: mset_swap)
  then show ?thesis using assms(1) e by (simp add: is_permutation_def)
qed

lemma mutate_order_returns: "\<exists>ind'. mutate_order ind dr = Inr ind'"
proof (cases "length (rectangle_order ind) > 1")
  case False then show ?thesis by (simp add: mutate_order_def Let_def)
next
  case True
  then have "2 \<le> length (rectangle_order ind)" by simp
  from sample_two_returns [OF this] obtain i j where
    "sample_two (length (rectangle_order ind)) (m_int1 dr) (m_int2 dr) = Inr (i, j)" by blast
  then show ?thesis using True by (simp add: mutate_order_def Let_def)
qed

lemma mutate_shuffle_permutation:
  assumes "is_permutation N (rectangle_order ind)" "mutate_shuffle ind dr = Inr ind'"
  shows "is_permutation N (rectangle_order ind')"
proof (cases "length (rectangle_order ind) > 2")
  case False
  then show ?thesis using assms by (simp add: mutate_shuffle_def Let_def)
next
  case True
  let ?ro = "rectangle_order ind"
  from assms(2) True obtain sz st where
    a: "randint (int (length ?ro div 3)) (int (length ?ro * 2 div 3)) (m_int1 dr) = Inr sz"
    and b: "randint 0 (int (length ?ro) - sz) (m_int2 dr) = Inr st"
    and e: "ind' = ind \<lparr> rectangle_order :=
              slice_assign ?ro (nat st) (nat (st + sz))
                (shuffle (m_shuffle dr) (slice ?ro (nat st) (nat (st + sz)))) \<rparr>"
    by (auto simp: mutate_shuffle_def Let_def split: sum.splits)
  from randint_bounds [OF a] randint_bounds [OF b] have "nat st \<le> nat (st + sz)" by linarith
  from slice_assign_shuffle_mset [OF this, of ?ro "m_shuffle dr"] show ?thesis
    using assms(1) e by (simp add: is_permutation_def)
qed

lemma mutate_shuffle_returns: "\<exists>ind'. mutate_shuffle ind dr = Inr ind'"
proof (cases "length (rectangle_order ind) > 2")
  case False then show ?thesis by (simp add: mutate_shuffle_def Let_def)
next
  case True
  let ?n = "length (rectangle_order ind)"
  have "int (?n div 3) \<le> int (?n * 2 div 3)" by simp
  then obtain sz where
    a: "randint (int (?n div 3)) (int (?n * 2 div 3)) (m_int1 dr) = Inr sz"
    by (auto simp: randint_def)
  from randint_bounds [OF a] have "sz \<le> int ?n" by linarith
  then obtain st where b: "randint 0 (int ?n - sz) (m_int2 dr) = Inr st"
    by (auto simp: randint_def)
  show ?thesis using True a b by (simp add: mutate_shuffle_def Let_def)
qed

lemma apply_mutation_permutation:
  assumes "is_permutation N (rectangle_order ind)" "apply_mutation mt opt ind dr = Inr ind'"
  shows "is_permutation N (rectangle_order ind')"
proof (cases mt)
  case Containers
  then show ?thesis using assms by (auto simp: mutate_containers_def Let_def split: sum.splits)
next
  case Heights
  then show ?thesis using assms by (auto simp: mutate_heights_def Let_def split: if_splits)
next
  case Order
  then show ?thesis using assms mutate_order_permutation by simp
next
  case Adjust
  then show ?thesis using assms by (auto simp: mutate_adjust_def Let_def split: if_splits)
next
  case Shuffle
  then show ?thesis using assms mutate_shuffle_permutation by simp
next
  case Random_heights
  then show ?thesis using assms by (auto simp: mutate_random_heights_def Let_def split: if_splits)
qed

lemma mutate_permutation:
  assumes "is_permutation N (rectangle_order ind)" "mutate opt ind dr = Inr ind'"
  shows "is_permutation N (rectangle_order ind')"
  using assms apply_mutation_permutation by (auto simp: mutate_def split: if_splits)

text \<open>
  C4. If the orders of an individual and of two parents are permutations of
  \<open>0 \<dots> N - 1\<close>, then so is the order after initialize_random (also right after
  construction), the order of both children of crossover for any draws (cut points
  and coins), and the order after each of the six mutation operators and after
  mutate. Crossover returns when \<open>N \<ge> 2\<close> and the container limits are at least 1;
  the two operators that rewrite the order, \<open>order\<close> and \<open>shuffle\<close>, always return.
\<close>

theorem rectangle_order_permutation:
  assumes "is_permutation N (rectangle_order ind)"
      and "is_permutation N (rectangle_order parent1)"
      and "is_permutation N (rectangle_order parent2)"
  shows "is_permutation N (rectangle_order (initialize_random ind g))
       \<and> (\<forall>i0. Individual_init rs cw mth mc d = Inr i0 \<longrightarrow>
             is_permutation (length rs) (rectangle_order (initialize_random i0 g)))
       \<and> (\<forall>c1 c2. crossover opt parent1 parent2 xd = Inr (c1, c2) \<longrightarrow>
             is_permutation N (rectangle_order c1) \<and> is_permutation N (rectangle_order c2))
       \<and> (2 \<le> N \<and> 1 \<le> max_containers opt
            \<and> 1 \<le> ind_max_containers parent1 \<and> 1 \<le> ind_max_containers parent2 \<longrightarrow>
             (\<exists>c1 c2. crossover opt parent1 parent2 xd = Inr (c1, c2)))
       \<and> (\<forall>mt ind'. apply_mutation mt opt ind md = Inr ind' \<longrightarrow>
             is_permutation N (rectangle_order ind'))
       \<and> (\<forall>ind'. mutate opt ind md = Inr ind' \<longrightarrow> is_permutation N (rectangle_order ind'))
       \<and> (\<exists>ind'. apply_mutation Order opt ind md = Inr ind')
       \<and> (\<exists>ind'. apply_mutation Shuffle opt ind md = Inr ind')"
  using assms initialize_random_permutation Individual_init_permutation
    crossover_permutation [OF assms(2,3)] crossover_returns [OF assms(2,3)]
    apply_mutation_permutation [OF assms(1)] mutate_permutation [OF assms(1)]
    mutate_order_returns mutate_shuffle_returns
  by (intro conjI allI impI) (blast | simp)+

theorem rectangle_order_permutation_witness:
  "is_permutation 3 (rectangle_order (initialize_random (three_individual [0, 1, 2]) (\<lambda>i. 0)))
   \<and> (\<exists>c1 c2. crossover three_optimizer (three_individual [0, 1, 2]) (three_individual [2, 0, 1])
                 three_crossover_draws = Inr (c1, c2)
              \<and> is_permutation 3 (rectangle_order c1) \<and> is_permutation 3 (rectangle_order c2))
   \<and> (\<exists>ind'. apply_mutation Shuffle three_optimizer (three_individual [0, 1, 2])
                 three_mutation_draws = Inr ind'
              \<and> is_permutation 3 (rectangle_order ind'))"
proof -
  have a: "is_permutation 3 (rectangle_order (three_individual [0, 1, 2]))"
    by (simp add: three_individual_def is_permutation_def upt_rec)
  have b: "is_permutation 3 (rectangle_order (three_individual [2, 0, 1]))"
    by (simp add: three_individual_def is_permutation_def upt_rec)
  have c: "2 \<le> (3::nat) \<and> 1 \<le> max_containers three_optimizer
           \<and> 1 \<le> ind_max_containers (three_individual [0, 1, 2])
           \<and> 1 \<le> ind_max_containers (three_individual [2, 0, 1])"
    by (simp add: three_individual_def three_optimizer_def)
  from rectangle_order_permutation [OF a a b, of "\<lambda>i. 0" "[]" 0 0 0 0 three_optimizer three_crossover_draws
             three_mutation_draws] c
  show ?thesis by blast
qed

end
